theory Spec2Isabelle
  imports Main
begin

section \<open>JavaScript values and string helpers\<close>

text \<open>
  A JavaScript string is modelled as a \<^typ>\<open>string\<close>: one \<^typ>\<open>char\<close> per UTF-16 code
  unit, for the code units below 256. A value of type \<^verbatim>\<open>string | null\<close> (or
  \<^verbatim>\<open>string | undefined\<close>) is a \<^typ>\<open>string option\<close>, \<open>None\<close> standing for both
  \<^verbatim>\<open>null\<close> and \<^verbatim>\<open>undefined\<close>. A thrown \<^verbatim>\<open>Error\<close> is a value carrying its message; a
  function that may throw returns \<open>error + 'a\<close> with \<open>Inl\<close> for the throw.
\<close>

datatype error = Error (message: string)

text \<open>Truthiness of a \<^verbatim>\<open>string | null\<close>: \<^verbatim>\<open>null\<close>, \<^verbatim>\<open>undefined\<close> and \<^verbatim>\<open>''\<close> are falsy.\<close>

definition truthy :: "string option \<Rightarrow> bool" where
  "truthy v = (case v of None \<Rightarrow> False | Some s \<Rightarrow> s \<noteq> [])"

text \<open>\<^verbatim>\<open>v || null\<close>\<close>

definition orNull :: "string option \<Rightarrow> string option" where
  "orNull v = (if truthy v then v else None)"

text \<open>\<^verbatim>\<open>v || ''\<close> and \<^verbatim>\<open>v ?? ''\<close> on a \<^verbatim>\<open>string | null\<close> (they agree on this type).\<close>

definition orEmpty :: "string option \<Rightarrow> string" where
  "orEmpty v = (case v of None \<Rightarrow> [] | Some s \<Rightarrow> s)"

definition isDigit :: "char \<Rightarrow> bool" where
  "isDigit c = (c \<in> set ''0123456789'')"

definition isUpperAZ :: "char \<Rightarrow> bool" where
  "isUpperAZ c = (c \<in> set ''ABCDEFGHIJKLMNOPQRSTUVWXYZ'')"

text \<open>The white space that \<^verbatim>\<open>String.prototype.trim\<close> removes, among the code units below 256.\<close>

definition isWhiteSpace :: "char \<Rightarrow> bool" where
  "isWhiteSpace c = (c \<in> set [CHR 0x09, CHR 0x0A, CHR 0x0B, CHR 0x0C, CHR 0x0D, CHR 0x20, CHR 0xA0])"

definition trim :: "string \<Rightarrow> string" where
  "trim s = rev (dropWhile isWhiteSpace (rev (dropWhile isWhiteSpace s)))"

text \<open>\<^verbatim>\<open>s.padStart(2, '0')\<close>\<close>

definition padStart2 :: "string \<Rightarrow> string" where
  "padStart2 s = replicate (2 - length s) CHR ''0'' @ s"

text \<open>\<^verbatim>\<open>s.split(sep)\<close> for a one-character separator: always at least one part.\<close>

fun splitOn :: "char \<Rightarrow> string \<Rightarrow> string list" where
  "splitOn sep [] = [[]]"
| "splitOn sep (c # s) =
     (if c = sep then [] # splitOn sep s
      else (case splitOn sep s of p # ps \<Rightarrow> (c # p) # ps | [] \<Rightarrow> [[c]]))"

text \<open>\<^verbatim>\<open>parts.join(sep)\<close>\<close>

fun join :: "string \<Rightarrow> string list \<Rightarrow> string" where
  "join sep [] = []"
| "join sep [p] = p"
| "join sep (p # q # ps) = p @ sep @ join sep (q # ps)"

fun startsWith :: "string \<Rightarrow> string \<Rightarrow> bool" where
  "startsWith s [] = True"
| "startsWith [] (p # ps) = False"
| "startsWith (c # s) (p # ps) = (c = p \<and> startsWith s ps)"

text \<open>\<^verbatim>\<open>s.includes(p)\<close>\<close>

fun includesStr :: "string \<Rightarrow> string \<Rightarrow> bool" where
  "includesStr [] p = (p = [])"
| "includesStr (c # s) p = (startsWith (c # s) p \<or> includesStr s p)"

text \<open>A number in a template literal: its decimal digits.\<close>

definition digitChar :: "nat \<Rightarrow> char" where
  "digitChar d = ''0123456789'' ! d"

function stringOfNat :: "nat \<Rightarrow> string" where
  "stringOfNat n = (if n < 10 then [digitChar n] else stringOfNat (n div 10) @ [digitChar (n mod 10)])"
  by pat_completeness auto
termination
  by (relation "measure (\<lambda>n. n)") auto

declare stringOfNat.simps [simp del]

section \<open>The parser: \<^verbatim>\<open>parsers/code-enforcement-cases.ts\<close>\<close>

record CodeEnforcementCaseRecord =
  caseNo :: string
  caseOpened :: "string option"
  caseClosed :: "string option"
  caseType :: string
  caseSubType :: string
  siteAddress :: string
  rawData :: "(string \<times> string) list"

text \<open>A CSV row, \<^verbatim>\<open>Record<string, string>\<close>: column name to cell; a missing column reads \<^verbatim>\<open>undefined\<close>.\<close>

type_synonym csv_row = "(string \<times> string) list"

definition column :: "csv_row \<Rightarrow> string \<Rightarrow> string option" where
  "column row name = map_of row name"

text \<open>
  \<^verbatim>\<open>normalizeDate\<close>: the part before the first space must match
  \<^verbatim>\<open>/^(\d{1,2})\/(\d{1,2})\/(\d{4})$/\<close>, that is, split at the slashes it has exactly three
  parts, of digits only, of lengths 1 or 2, 1 or 2, and 4.
\<close>

definition normalizeDate :: "string option \<Rightarrow> string option" where
  "normalizeDate dateStr =
     (case dateStr of
        None \<Rightarrow> None
      | Some s \<Rightarrow>
          if s = [] \<or> trim s = [] then None
          else
            (case splitOn CHR ''/'' (hd (splitOn CHR '' '' s)) of
               [month, day, year] \<Rightarrow>
                 if list_all isDigit month \<and> (length month = 1 \<or> length month = 2) \<and>
                    list_all isDigit day \<and> (length day = 1 \<or> length day = 2) \<and>
                    list_all isDigit year \<and> length year = 4
                 then Some (year @ ''-'' @ padStart2 month @ ''-'' @ padStart2 day)
                 else None
             | _ \<Rightarrow> None))"

text \<open>\<^verbatim>\<open>row.X?.trim()\<close>, used as a condition and then as a value.\<close>

definition trimmedColumn :: "csv_row \<Rightarrow> string \<Rightarrow> string" where
  "trimmedColumn row name = (case column row name of None \<Rightarrow> [] | Some s \<Rightarrow> trim s)"

definition buildAddress :: "csv_row \<Rightarrow> string" where
  "buildAddress row =
     (let parts0 = (if trimmedColumn row ''SITE_ADDR'' \<noteq> [] then [trimmedColumn row ''SITE_ADDR''] else []);
          csz1 = (if trimmedColumn row ''SITE_CITY'' \<noteq> [] then [trimmedColumn row ''SITE_CITY''] else []);
          csz2 = csz1 @ (if trimmedColumn row ''SITE_STATE'' \<noteq> [] then [trimmedColumn row ''SITE_STATE''] else []);
          cityStateZip = csz2 @
            (if trimmedColumn row ''SITE_ZIP'' \<noteq> [] \<and> trimmedColumn row ''SITE_ZIP'' \<noteq> ''0''
             then [trimmedColumn row ''SITE_ZIP''] else []);
          parts = parts0 @ (if cityStateZip \<noteq> [] then [join '', '' cityStateZip] else [])
      in join '', '' parts)"

text \<open>\<^verbatim>\<open>isValidCaseNo\<close>: the regular expression \<^verbatim>\<open>/^C[A-Z]\d{2}-\d+$/\<close>.\<close>

fun isValidCaseNo :: "string \<Rightarrow> bool" where
  "isValidCaseNo (c # l # d1 # d2 # h # suffix) =
     (c = CHR ''C'' \<and> isUpperAZ l \<and> isDigit d1 \<and> isDigit d2 \<and> h = CHR ''-'' \<and>
      suffix \<noteq> [] \<and> list_all isDigit suffix)"
| "isValidCaseNo _ = False"

text \<open>
  \<^verbatim>\<open>generateCaseHash\<close>. The digest is Node's \<^verbatim>\<open>crypto.createHash('sha256')\<close>, a library
  outside the repository: \<open>sha256hex\<close>, the function from the content to the 64 hexadecimal
  digits, is a parameter.
\<close>

definition generateCaseHash :: "(string \<Rightarrow> string) \<Rightarrow> CodeEnforcementCaseRecord \<Rightarrow> string" where
  "generateCaseHash sha256hex record =
     (let content = join ''|'' [caseNo record, orEmpty (caseOpened record), orEmpty (caseClosed record)]
      in take 16 (sha256hex content))"

text \<open>
  The loop of \<^verbatim>\<open>parseCodeEnforcementCasesCsv\<close> over the rows the CSV library returns; the
  result is the records and the counter \<^verbatim>\<open>skipped\<close>.
\<close>

definition parseRow :: "csv_row \<Rightarrow> CodeEnforcementCaseRecord option" where
  "parseRow row =
     (let caseNumber = trimmedColumn row ''CASE_NO'' in
      if \<not> isValidCaseNo caseNumber then None
      else Some \<lparr> caseNo = caseNumber,
                  caseOpened = normalizeDate (column row ''STARTED''),
                  caseClosed = normalizeDate (column row ''CLOSED''),
                  caseType = trimmedColumn row ''CaseType'',
                  caseSubType = trimmedColumn row ''CaseSubType'',
                  siteAddress = buildAddress row,
                  rawData = row \<rparr>)"

fun parseRows :: "csv_row list \<Rightarrow> CodeEnforcementCaseRecord list \<Rightarrow> nat \<Rightarrow> CodeEnforcementCaseRecord list \<times> nat" where
  "parseRows [] records skipped = (records, skipped)"
| "parseRows (row # rows) records skipped =
     (case parseRow row of
        None \<Rightarrow> parseRows rows records (skipped + 1)
      | Some record \<Rightarrow> parseRows rows (records @ [record]) skipped)"

definition parseCodeEnforcementCasesCsv :: "csv_row list \<Rightarrow> CodeEnforcementCaseRecord list \<times> nat" where
  "parseCodeEnforcementCasesCsv rows = parseRows rows [] 0"

section \<open>The Threefold client: \<^verbatim>\<open>sync/threefold.ts\<close>\<close>

text \<open>
  \<^verbatim>\<open>CodeComplianceCustomFields\<close>: every field is optional, \<open>None\<close> is an absent key;
  \<^verbatim>\<open>case_close_date\<close> may be present with the value \<^verbatim>\<open>null\<close>, which is \<open>Some None\<close>.
  The same type is what the sync reads a ticket's \<^verbatim>\<open>customFields\<close> as.
\<close>

record CodeComplianceCustomFields =
  cc_case_number :: "string option"
  last_case_status :: "string option"
  cc_case_opened :: "string option"
  case_close_date :: "string option option"

text \<open>The empty object \<^verbatim>\<open>{}\<close>.\<close>

definition noFields :: CodeComplianceCustomFields where
  "noFields = \<lparr> cc_case_number = None, last_case_status = None, cc_case_opened = None,
                case_close_date = None \<rparr>"

text \<open>\<^verbatim>\<open>TicketWithCustomFields\<close>, with the two fields the sync reads.\<close>

record TicketWithCustomFields =
  ticket_id :: int
  customFields :: CodeComplianceCustomFields

text \<open>
  The requests the client sends, and what \<^verbatim>\<open>fetch\<close> gives back: it throws, or it returns a
  status, the body as text, and the tickets the body decodes to as JSON.
\<close>

datatype request =
    SearchTickets CodeComplianceCustomFields nat nat bool
  | GetTicket int
  | PostCustomFields int CodeComplianceCustomFields

datatype response =
    FetchThrows string
  | HttpResponse nat string "TicketWithCustomFields list"

definition ok :: "nat \<Rightarrow> bool" where
  "ok status = (200 \<le> status \<and> status \<le> 299)"

section \<open>The state: \<^verbatim>\<open>state/tracker.ts\<close>\<close>

text \<open>
  The columns \<^verbatim>\<open>diffCases\<close> selects (the interface \<^verbatim>\<open>CaseStateRow\<close>), and the whole row of
  the table \<^verbatim>\<open>case_state\<close>. Timestamps are natural numbers. The columns the schema lets be
  null but every insert sets (\<^verbatim>\<open>content_hash\<close>, \<^verbatim>\<open>case_type\<close>, \<^verbatim>\<open>case_subtype\<close>,
  \<^verbatim>\<open>site_address\<close>, \<^verbatim>\<open>raw_data\<close>) are modelled as set, as the interface has
  \<^verbatim>\<open>content_hash\<close>; \<^verbatim>\<open>raw_data\<close> holds the CSV row itself rather than its JSON text. The
  column \<^verbatim>\<open>sync_log.metadata\<close>, which no statement writes, is left out.
\<close>

record CaseStateRow =
  case_no :: string
  case_opened :: "string option"
  case_closed :: "string option"
  case_status :: string
  content_hash :: string
  threefold_ticket_id :: "int option"

record case_state_row = CaseStateRow +
  case_type :: string
  case_subtype :: string
  site_address :: string
  raw_data :: "(string \<times> string) list"
  last_seen_at :: nat
  created_at :: nat

record sync_log_row =
  log_id :: nat
  sync_type :: string
  started_at :: nat
  completed_at :: "nat option"
  total_records :: nat
  changed_records :: nat
  log_errors :: nat
  error_message :: "string option"

record CaseStateChange =
  change_caseNo :: string
  change_record :: CodeEnforcementCaseRecord
  previousHash :: "string option"
  newHash :: string
  isNew :: bool
  previousOpened :: "string option"
  previousClosed :: "string option"
  previousStatus :: "string option"
  threefoldTicketId :: "int option"

text \<open>
  What a process does not control is the environment \<open>env\<close>: the digest, the configuration
  flag \<^verbatim>\<open>CASE_UPDATES_ENABLED\<close>, whether the \<open>k\<close>-th database call fails (and with which
  message), the value of \<^verbatim>\<open>NOW()\<close> in the \<open>k\<close>-th call, and what the remote store answers to a
  request given the requests sent before.
  What it changes is the \<open>world\<close>: the two tables, the sequence behind \<^verbatim>\<open>sync_log.id\<close>, the
  number of database calls made, the module variable \<^verbatim>\<open>searchApiAvailable\<close>, and the requests
  sent so far, oldest first.
\<close>

record env =
  sha256hex :: "string \<Rightarrow> string"
  caseUpdatesEnabled :: bool
  dbFailure :: "nat \<Rightarrow> string option"
  dbNow :: "nat \<Rightarrow> nat"
  remoteServer :: "request list \<Rightarrow> request \<Rightarrow> response"

record world =
  case_state :: "case_state_row list"
  sync_log :: "sync_log_row list"
  sync_log_id_seq :: nat
  dbCalls :: nat
  searchApiAvailable :: bool
  requests :: "request list"

type_synonym 'a io = "world \<Rightarrow> (error + 'a) \<times> world"

definition succeed :: "'a \<Rightarrow> 'a io" where
  "succeed a w = (Inr a, w)"

text \<open>\<^verbatim>\<open>const a = await m; ...\<close>: a throw in \<open>m\<close> skips the rest.\<close>

definition andThen :: "'a io \<Rightarrow> ('a \<Rightarrow> 'b io) \<Rightarrow> 'b io" where
  "andThen m f w = (case m w of (Inl e, w1) \<Rightarrow> (Inl e, w1) | (Inr a, w1) \<Rightarrow> f a w1)"

text \<open>One call to the database (\<^verbatim>\<open>pool.query\<close>, \<^verbatim>\<open>client.query\<close>, \<^verbatim>\<open>pool.connect\<close>).\<close>

definition dbCall :: "env \<Rightarrow> (nat \<Rightarrow> 'a io) \<Rightarrow> 'a io" where
  "dbCall env stmt w =
     (let k = dbCalls w; w1 = w\<lparr>dbCalls := Suc k\<rparr> in
      case dbFailure env k of
        Some msg \<Rightarrow> (Inl (Error msg), w1)
      | None \<Rightarrow> stmt (dbNow env k) w1)"

definition connect :: "env \<Rightarrow> unit io" where
  "connect env = dbCall env (\<lambda>now. succeed ())"

definition createSyncLog :: "env \<Rightarrow> string \<Rightarrow> nat io" where
  "createSyncLog env syncType =
     dbCall env (\<lambda>now w.
       let newId = Suc (sync_log_id_seq w) in
       (Inr newId,
        w\<lparr>sync_log := sync_log w @
             [\<lparr> log_id = newId, sync_type = syncType, started_at = now, completed_at = None,
                total_records = 0, changed_records = 0, log_errors = 0, error_message = None \<rparr>],
          sync_log_id_seq := newId\<rparr>))"

definition completeSyncLog :: "env \<Rightarrow> nat \<Rightarrow> nat \<Rightarrow> nat \<Rightarrow> nat \<Rightarrow> string option \<Rightarrow> unit io" where
  "completeSyncLog env syncId totalRecords changedRecords errors errorMessage =
     dbCall env (\<lambda>now w.
       (Inr (),
        w\<lparr>sync_log :=
            map (\<lambda>row. if log_id row = syncId
                        then row\<lparr>completed_at := Some now, total_records := totalRecords,
                                 changed_records := changedRecords, log_errors := errors,
                                 error_message := errorMessage\<rparr>
                        else row)
                (sync_log w)\<rparr>))"

definition determineCaseStatus :: "string option \<Rightarrow> string option \<Rightarrow> string" where
  "determineCaseStatus opened closed =
     (if truthy opened \<and> truthy closed then ''closed'' else ''open'')"

text \<open>
  A JavaScript \<^verbatim>\<open>Map\<close> as an association list in insertion order: \<^verbatim>\<open>set\<close> on a key that is
  there replaces the value where it stands, \<^verbatim>\<open>get\<close> is \<^const>\<open>map_of\<close>, \<^verbatim>\<open>values()\<close> is
  \<open>map snd\<close>.
\<close>

fun Map_set :: "'k \<Rightarrow> 'v \<Rightarrow> ('k \<times> 'v) list \<Rightarrow> ('k \<times> 'v) list" where
  "Map_set k v [] = [(k, v)]"
| "Map_set k v ((k', v') # m) = (if k' = k then (k, v) # m else (k', v') # Map_set k v m)"

text \<open>The first lines of \<^verbatim>\<open>diffCases\<close> and of \<^verbatim>\<open>upsertCaseState\<close>: \<^verbatim>\<open>uniqueRecords\<close>.\<close>

definition uniqueRecords :: "CodeEnforcementCaseRecord list \<Rightarrow> CodeEnforcementCaseRecord list" where
  "uniqueRecords records =
     map snd (fold (\<lambda>record deduped. Map_set (caseNo record) record deduped) records [])"

text \<open>\<^verbatim>\<open>SELECT ... FROM case_state WHERE case_no = ANY($1)\<close>\<close>

definition selectCaseStates :: "string list \<Rightarrow> case_state_row list \<Rightarrow> CaseStateRow list" where
  "selectCaseStates caseNos table =
     map CaseStateRow.truncate (filter (\<lambda>row. case_no row \<in> set caseNos) table)"

text \<open>The body of the loop "Find changes": the changes one record adds, none or one.\<close>

definition changesOf ::
  "(string \<Rightarrow> string) \<Rightarrow> (string \<times> CaseStateRow) list \<Rightarrow> CodeEnforcementCaseRecord \<Rightarrow> CaseStateChange list" where
  "changesOf h currentStates record =
     (let newHash = generateCaseHash h record in
      case map_of currentStates (caseNo record) of
        None \<Rightarrow>
          [\<lparr> change_caseNo = caseNo record, change_record = record, previousHash = None,
             newHash = newHash, isNew = True, previousOpened = None, previousClosed = None,
             previousStatus = None, threefoldTicketId = None \<rparr>]
      | Some currentState \<Rightarrow>
          if content_hash currentState \<noteq> newHash
          then [\<lparr> change_caseNo = caseNo record, change_record = record,
                  previousHash = Some (content_hash currentState), newHash = newHash,
                  isNew = False, previousOpened = case_opened currentState,
                  previousClosed = case_closed currentState,
                  previousStatus = Some (case_status currentState),
                  threefoldTicketId = threefold_ticket_id currentState \<rparr>]
          else [])"

definition diffCases :: "env \<Rightarrow> CodeEnforcementCaseRecord list \<Rightarrow> CaseStateChange list io" where
  "diffCases env records =
     (let unique = uniqueRecords records in
      andThen (connect env) (\<lambda>client.
      andThen (dbCall env (\<lambda>now w. (Inr (selectCaseStates (map caseNo unique) (case_state w)), w)))
        (\<lambda>rows.
           let currentStates = fold (\<lambda>row m. Map_set (case_no row) row m) rows [] in
           succeed (concat (map (changesOf (sha256hex env) currentStates) unique)))))"

text \<open>
  The row one record proposes for insertion (\<^verbatim>\<open>EXCLUDED\<close>): the nine values of the
  statement and \<^verbatim>\<open>NOW()\<close>; the columns the statement does not name take their defaults.
\<close>

definition excludedRow :: "(string \<Rightarrow> string) \<Rightarrow> nat \<Rightarrow> CodeEnforcementCaseRecord \<Rightarrow> case_state_row" where
  "excludedRow h now record =
     \<lparr> case_no = caseNo record,
       case_opened = caseOpened record,
       case_closed = caseClosed record,
       case_status = determineCaseStatus (caseOpened record) (caseClosed record),
       content_hash = generateCaseHash h record,
       threefold_ticket_id = None,
       case_type = caseType record,
       case_subtype = caseSubType record,
       site_address = siteAddress record,
       raw_data = rawData record,
       last_seen_at = now,
       created_at = now \<rparr>"

text \<open>The clause \<^verbatim>\<open>DO UPDATE SET ...\<close> on the row that is there.\<close>

definition doUpdateSet :: "nat \<Rightarrow> case_state_row \<Rightarrow> case_state_row \<Rightarrow> case_state_row" where
  "doUpdateSet now excluded row =
     row\<lparr>case_opened := case_opened excluded,
         case_closed := case_closed excluded,
         case_status := case_status excluded,
         case_type := case_type excluded,
         case_subtype := case_subtype excluded,
         site_address := site_address excluded,
         raw_data := raw_data excluded,
         content_hash := content_hash excluded,
         last_seen_at := now\<rparr>"

text \<open>\<^verbatim>\<open>INSERT ... ON CONFLICT (case_no) DO UPDATE SET ...\<close> for one proposed row.\<close>

fun insertOnConflict :: "nat \<Rightarrow> case_state_row \<Rightarrow> case_state_row list \<Rightarrow> case_state_row list" where
  "insertOnConflict now excluded [] = [excluded]"
| "insertOnConflict now excluded (row # table) =
     (if case_no row = case_no excluded
      then doUpdateSet now excluded row # table
      else row # insertOnConflict now excluded table)"

text \<open>
  The multi-row statement of one batch. PostgreSQL refuses a statement whose proposed rows
  repeat a key.
\<close>

definition upsertBatch :: "env \<Rightarrow> CodeEnforcementCaseRecord list \<Rightarrow> unit io" where
  "upsertBatch env batch =
     dbCall env (\<lambda>now w.
       if \<not> distinct (map caseNo batch)
       then (Inl (Error ''ON CONFLICT DO UPDATE command cannot affect row a second time''), w)
       else (Inr (),
             w\<lparr>case_state :=
                 fold (\<lambda>record. insertOnConflict now (excludedRow (sha256hex env) now record))
                   batch (case_state w)\<rparr>))"

definition BATCH_SIZE :: nat where
  "BATCH_SIZE = 1000"

text \<open>
  The loop \<^verbatim>\<open>for (let i = 0; i < uniqueRecords.length; i += BATCH_SIZE)\<close>, on the records
  from index \<open>i\<close> on.
\<close>

function upsertBatches :: "env \<Rightarrow> CodeEnforcementCaseRecord list \<Rightarrow> unit io" where
  "upsertBatches env remaining w =
     (if remaining = [] then (Inr (), w)
      else (case upsertBatch env (take BATCH_SIZE remaining) w of
              (Inl e, w1) \<Rightarrow> (Inl e, w1)
            | (Inr u, w1) \<Rightarrow> upsertBatches env (drop BATCH_SIZE remaining) w1))"
  by pat_completeness auto
termination
  by (relation "measure (\<lambda>(env, remaining, w). length remaining)") (auto simp: BATCH_SIZE_def)

declare upsertBatches.simps [simp del]

definition upsertCaseState :: "env \<Rightarrow> CodeEnforcementCaseRecord list \<Rightarrow> unit io" where
  "upsertCaseState env records =
     (if records = [] then succeed ()
      else andThen (connect env) (\<lambda>client. upsertBatches env (uniqueRecords records)))"

definition updateCaseThreefoldId :: "env \<Rightarrow> string \<Rightarrow> int \<Rightarrow> unit io" where
  "updateCaseThreefoldId env caseNumber ticketId =
     dbCall env (\<lambda>now w.
       (Inr (),
        w\<lparr>case_state :=
            map (\<lambda>row. if case_no row = caseNumber then row\<lparr>threefold_ticket_id := Some ticketId\<rparr> else row)
                (case_state w)\<rparr>))"

text \<open>The row of a case in the table, if there is one.\<close>

definition rowOf :: "case_state_row list \<Rightarrow> string \<Rightarrow> case_state_row option" where
  "rowOf table caseNumber = find (\<lambda>row. case_no row = caseNumber) table"

definition getCaseThreefoldId :: "env \<Rightarrow> string \<Rightarrow> int option io" where
  "getCaseThreefoldId env caseNumber =
     dbCall env (\<lambda>now w.
       (Inr (case rowOf (case_state w) caseNumber of
               None \<Rightarrow> None
             | Some row \<Rightarrow> threefold_ticket_id row), w))"

section \<open>The Threefold client, continued\<close>

text \<open>
  \<^verbatim>\<open>fetch\<close>: the request is sent and recorded. (The wait of \<^verbatim>\<open>rateLimitedRequest\<close> before it
  changes no value and is left out.)
\<close>

definition fetch :: "env \<Rightarrow> request \<Rightarrow> world \<Rightarrow> response \<times> world" where
  "fetch env rq w = (remoteServer env (requests w) rq, w\<lparr>requests := requests w @ [rq]\<rparr>)"

definition searchTicketsByCustomField ::
  "env \<Rightarrow> CodeComplianceCustomFields \<Rightarrow> nat \<Rightarrow> nat \<Rightarrow> bool \<Rightarrow> TicketWithCustomFields list io" where
  "searchTicketsByCustomField env searchFields limit offset includeClosed w =
     (case fetch env (SearchTickets searchFields limit offset includeClosed) w of
        (FetchThrows msg, w1) \<Rightarrow> (Inl (Error msg), w1)
      | (HttpResponse status body tickets, w1) \<Rightarrow>
          if \<not> ok status
          then (Inl (Error (''Failed to search tickets: '' @ stringOfNat status @ '' '' @ body)), w1)
          else (Inr tickets, w1))"

definition getTicketById :: "env \<Rightarrow> int \<Rightarrow> TicketWithCustomFields option io" where
  "getTicketById env ticketId w =
     (case fetch env (GetTicket ticketId) w of
        (FetchThrows msg, w1) \<Rightarrow> (Inl (Error msg), w1)
      | (HttpResponse status body tickets, w1) \<Rightarrow>
          if status = 404 then (Inr None, w1)
          else if \<not> ok status
          then (Inl (Error (''Failed to get ticket: '' @ stringOfNat status @ '' '' @ body)), w1)
          else (case tickets of
                  [] \<Rightarrow> (Inl (Error ''Cannot read properties of undefined (reading 'id')''), w1)
                | t # ts \<Rightarrow> (Inr (Some t), w1)))"

definition findTicketByCaseNumber :: "env \<Rightarrow> string \<Rightarrow> TicketWithCustomFields option io" where
  "findTicketByCaseNumber env caseNumber w =
     (if \<not> searchApiAvailable w then (Inr None, w)
      else (case searchTicketsByCustomField env (noFields\<lparr>cc_case_number := Some caseNumber\<rparr>) 1 0 True w of
              (Inr tickets, w1) \<Rightarrow> (Inr (case tickets of [] \<Rightarrow> None | t # ts \<Rightarrow> Some t), w1)
            | (Inl e, w1) \<Rightarrow>
                if includesStr (message e) ''405''
                then (Inr None, w1\<lparr>searchApiAvailable := False\<rparr>)
                else (Inl e, w1)))"

definition updateTicketCustomFields :: "env \<Rightarrow> int \<Rightarrow> CodeComplianceCustomFields \<Rightarrow> unit io" where
  "updateTicketCustomFields env ticketId payload w =
     (case fetch env (PostCustomFields ticketId payload) w of
        (FetchThrows msg, w1) \<Rightarrow> (Inl (Error msg), w1)
      | (HttpResponse status body tickets, w1) \<Rightarrow>
          if \<not> ok status
          then (Inl (Error (''Failed to update ticket custom fields: '' @ stringOfNat status @ '' '' @ body)), w1)
          else (Inr (), w1))"

section \<open>The orchestrator: \<^verbatim>\<open>sync/cases-sync.ts\<close>\<close>

text \<open>
  "Find ticket": by the cached id when the change has one (\<^verbatim>\<open>0\<close> is falsy), then by case
  number when that ticket is gone; by case number otherwise.
\<close>

definition findTicket :: "env \<Rightarrow> CaseStateChange \<Rightarrow> TicketWithCustomFields option io" where
  "findTicket env change =
     (case threefoldTicketId change of
        None \<Rightarrow> findTicketByCaseNumber env (change_caseNo change)
      | Some cached \<Rightarrow>
          if cached = 0 then findTicketByCaseNumber env (change_caseNo change)
          else andThen (getTicketById env cached) (\<lambda>ticket.
                 case ticket of
                   None \<Rightarrow> findTicketByCaseNumber env (change_caseNo change)
                 | Some t \<Rightarrow> succeed (Some t)))"

text \<open>
  The values compared, normalised with \<^verbatim>\<open>|| null\<close>: what the ticket holds
  (\<^verbatim>\<open>currentOpened\<close>, \<^verbatim>\<open>currentClosed\<close>, \<^verbatim>\<open>currentStatus\<close>) and what the record asks for
  (\<^verbatim>\<open>wantOpened\<close>, \<^verbatim>\<open>wantClosed\<close>, \<^verbatim>\<open>wantStatus\<close>).
\<close>

definition currentOpened :: "TicketWithCustomFields \<Rightarrow> string option" where
  "currentOpened ticket = orNull (cc_case_opened (customFields ticket))"

definition currentClosed :: "TicketWithCustomFields \<Rightarrow> string option" where
  "currentClosed ticket =
     (case case_close_date (customFields ticket) of None \<Rightarrow> None | Some v \<Rightarrow> orNull v)"

definition currentStatus :: "TicketWithCustomFields \<Rightarrow> string option" where
  "currentStatus ticket = orNull (last_case_status (customFields ticket))"

definition wantOpened :: "CaseStateChange \<Rightarrow> string option" where
  "wantOpened change = orNull (caseOpened (change_record change))"

definition wantClosed :: "CaseStateChange \<Rightarrow> string option" where
  "wantClosed change = orNull (caseClosed (change_record change))"

definition wantStatus :: "CaseStateChange \<Rightarrow> string" where
  "wantStatus change =
     determineCaseStatus (caseOpened (change_record change)) (caseClosed (change_record change))"

text \<open>
  The comparison and the payload built from it: \<open>None\<close> when nothing differs (the branch
  that \<^verbatim>\<open>continue\<close>s without a write), the object \<^verbatim>\<open>updateFields\<close> otherwise.
\<close>

definition updateFields :: "CaseStateChange \<Rightarrow> TicketWithCustomFields \<Rightarrow> CodeComplianceCustomFields option" where
  "updateFields change ticket =
     (let hasOpenedChange = (currentOpened ticket \<noteq> wantOpened change);
          hasClosedChange = (currentClosed ticket \<noteq> wantClosed change);
          hasStatusChange = (currentStatus ticket \<noteq> Some (wantStatus change))
      in if \<not> hasOpenedChange \<and> \<not> hasClosedChange \<and> \<not> hasStatusChange then None
         else
           let f1 = (if hasOpenedChange \<and> truthy (wantOpened change)
                     then noFields\<lparr>cc_case_opened := wantOpened change\<rparr> else noFields);
               f2 = (if hasClosedChange then f1\<lparr>case_close_date := Some (wantClosed change)\<rparr> else f1);
               f3 = (if hasStatusChange then f2\<lparr>last_case_status := Some (wantStatus change)\<rparr> else f2)
           in Some f3)"

datatype outcome = DryRun | NotFound | NoChanges | Updated

text \<open>The \<^verbatim>\<open>try\<close> block of the loop over the changes, for one change.\<close>

definition processChange :: "env \<Rightarrow> CaseStateChange \<Rightarrow> outcome io" where
  "processChange env change =
     (if \<not> caseUpdatesEnabled env then succeed DryRun
      else andThen (findTicket env change) (\<lambda>found.
        case found of
          None \<Rightarrow> succeed NotFound
        | Some ticket \<Rightarrow>
            (case updateFields change ticket of
               None \<Rightarrow>
                 andThen (updateCaseThreefoldId env (change_caseNo change) (ticket_id ticket))
                   (\<lambda>u. succeed NoChanges)
             | Some payload \<Rightarrow>
                 andThen (updateTicketCustomFields env (ticket_id ticket) payload) (\<lambda>u.
                 andThen (updateCaseThreefoldId env (change_caseNo change) (ticket_id ticket))
                   (\<lambda>u. succeed Updated)))))"

record counters =
  processed :: nat
  updated :: nat
  notFound :: nat
  noChanges :: nat
  errors :: nat

definition count :: "(error + outcome) \<Rightarrow> counters \<Rightarrow> counters" where
  "count result c =
     (case result of
        Inl e \<Rightarrow> c\<lparr>errors := errors c + 1\<rparr>
      | Inr DryRun \<Rightarrow> c
      | Inr NotFound \<Rightarrow> c\<lparr>notFound := notFound c + 1\<rparr>
      | Inr NoChanges \<Rightarrow> c\<lparr>noChanges := noChanges c + 1\<rparr>
      | Inr Updated \<Rightarrow> c\<lparr>updated := updated c + 1\<rparr>)"

text \<open>The loop over the changes: a throw inside the \<^verbatim>\<open>try\<close> is counted and the loop goes on.\<close>

fun processChanges :: "env \<Rightarrow> CaseStateChange list \<Rightarrow> counters \<Rightarrow> world \<Rightarrow> counters \<times> world" where
  "processChanges env [] c w = (c, w)"
| "processChanges env (change # changes) c w =
     (case processChange env change w of
        (result, w1) \<Rightarrow> processChanges env changes (count result (c\<lparr>processed := processed c + 1\<rparr>)) w1)"

text \<open>The outer \<^verbatim>\<open>try\<close> block of \<^verbatim>\<open>processCasesSync\<close>.\<close>

definition syncBody :: "env \<Rightarrow> nat \<Rightarrow> CodeEnforcementCaseRecord list \<Rightarrow> unit io" where
  "syncBody env syncId records =
     andThen (diffCases env records) (\<lambda>changes.
       if changes = []
       then andThen (upsertCaseState env records) (\<lambda>u.
              completeSyncLog env syncId (length records) 0 0 None)
       else (\<lambda>w.
         case processChanges env changes
                \<lparr> processed = 0, updated = 0, notFound = 0, noChanges = 0, errors = 0 \<rparr> w of
           (c, w1) \<Rightarrow>
             andThen (upsertCaseState env records) (\<lambda>u.
               completeSyncLog env syncId (length records) (updated c) (errors c) None) w1))"

definition processCasesSync :: "env \<Rightarrow> CodeEnforcementCaseRecord list \<Rightarrow> unit io" where
  "processCasesSync env records =
     andThen (createSyncLog env ''cases'') (\<lambda>syncId w.
       case syncBody env syncId records w of
         (Inr u, w1) \<Rightarrow> (Inr u, w1)
       | (Inl err, w1) \<Rightarrow>
           andThen (completeSyncLog env syncId (length records) 0 1 (Some (message err)))
             (\<lambda>u w2. (Inl err, w2)) w1)"

section \<open>Auxiliary definitions\<close>

text \<open>
  Notions the statements and proofs below use: the invariant of the \<^verbatim>\<open>Map\<close> built by
  the deduplication (every record is stored under its own case number), the row a
  successful upsert leaves for a record, the fingerprint stored for a case, and the
  requests that write to the remote store.
\<close>

definition keyed :: "(string \<times> CodeEnforcementCaseRecord) list \<Rightarrow> bool" where
  "keyed m = (\<forall>(k, r) \<in> set m. caseNo r = k)"

definition upserted :: "(string \<Rightarrow> string) \<Rightarrow> nat \<Rightarrow> CodeEnforcementCaseRecord \<Rightarrow> case_state_row option \<Rightarrow> case_state_row" where
  "upserted h now r old =
     (case old of None \<Rightarrow> excludedRow h now r | Some row \<Rightarrow> doUpdateSet now (excludedRow h now r) row)"

definition contentHashOf :: "case_state_row list \<Rightarrow> string \<Rightarrow> string option" where
  "contentHashOf table k = map_option content_hash (rowOf table k)"

fun isPost :: "request \<Rightarrow> bool" where
  "isPost (PostCustomFields tid p) = True"
| "isPost _ = False"

text \<open>
  The shape of a case identifier as the specification words it: two letters, two digits,
  a hyphen, and a numeric suffix that is not empty.
\<close>

definition isLetter :: "char \<Rightarrow> bool" where
  "isLetter c = (c \<in> set ''ABCDEFGHIJKLMNOPQRSTUVWXYZabcdefghijklmnopqrstuvwxyz'')"

fun specCaseIdShape :: "string \<Rightarrow> bool" where
  "specCaseIdShape (l1 # l2 # d1 # d2 # h # suffix) =
     (isLetter l1 \<and> isLetter l2 \<and> isDigit d1 \<and> isDigit d2 \<and> h = CHR ''-'' \<and>
      suffix \<noteq> [] \<and> list_all isDigit suffix)"
| "specCaseIdShape _ = False"

text \<open>
  Two rows of the table agree outside the nine columns the upsert writes; and what an
  upsert may do to a table: a row that was there stays, changed in those columns at most,
  and a row that was not there comes without a ticket link.
\<close>

definition sameOutsideUpsertColumns :: "case_state_row \<Rightarrow> case_state_row \<Rightarrow> bool" where
  "sameOutsideUpsertColumns old new =
     (new = old\<lparr>case_opened := case_opened new, case_closed := case_closed new,
                case_status := case_status new, case_type := case_type new,
                case_subtype := case_subtype new, site_address := site_address new,
                raw_data := raw_data new, content_hash := content_hash new,
                last_seen_at := last_seen_at new\<rparr>)"

definition upsertFrame :: "case_state_row list \<Rightarrow> case_state_row list \<Rightarrow> bool" where
  "upsertFrame t t' =
     (\<forall>k. case rowOf t k of
            Some old \<Rightarrow> (\<exists>new. rowOf t' k = Some new \<and> sameOutsideUpsertColumns old new)
          | None \<Rightarrow> (\<forall>new. rowOf t' k = Some new \<longrightarrow> threefold_ticket_id new = None))"

text \<open>
  A concrete setting: one parsed record, a remote store that holds one ticket for it and
  answers every request with status 200, a database that never fails, and the world of a
  process that has just started on empty tables. The digest stays a parameter.
\<close>

definition exampleRecord :: CodeEnforcementCaseRecord where
  "exampleRecord =
     \<lparr> caseNo = ''CE24-0001'', caseOpened = Some ''2025-01-01'', caseClosed = None,
       caseType = ''CODE ENFORCEMENT'', caseSubType = ''MULTIPLE VIOLATIONS'',
       siteAddress = ''1 Main St, Corona, CA'', rawData = [] \<rparr>"

definition exampleTicket :: TicketWithCustomFields where
  "exampleTicket =
     \<lparr> ticket_id = 42,
       customFields = \<lparr> cc_case_number = Some ''CE24-0001'', last_case_status = Some ''open'',
                        cc_case_opened = Some ''2025-01-01'', case_close_date = None \<rparr> \<rparr>"

definition exampleServer :: "request list \<Rightarrow> request \<Rightarrow> response" where
  "exampleServer history rq =
     (case rq of
        SearchTickets cf limit offset includeClosed \<Rightarrow> HttpResponse 200 [] [exampleTicket]
      | GetTicket ticketId \<Rightarrow> HttpResponse 200 [] [exampleTicket]
      | PostCustomFields ticketId payload \<Rightarrow> HttpResponse 200 [] [])"

definition exampleEnv :: "(string \<Rightarrow> string) \<Rightarrow> env" where
  "exampleEnv h =
     \<lparr> sha256hex = h, caseUpdatesEnabled = True, dbFailure = (\<lambda>k. None),
       dbNow = (\<lambda>k. 1000 + k), remoteServer = exampleServer \<rparr>"

definition freshWorld :: world where
  "freshWorld =
     \<lparr> case_state = [], sync_log = [], sync_log_id_seq = 0, dbCalls = 0,
       searchApiAvailable = True, requests = [] \<rparr>"

text \<open>
  More of the setting: the same case with a closing date, a second case, the row of the
  first case with a cached ticket link, a world that holds it, the change \<^verbatim>\<open>diffCases\<close>
  reports for the closing date, and two CSV rows, the second with a malformed case number.
\<close>

definition exampleClosedRecord :: CodeEnforcementCaseRecord where
  "exampleClosedRecord = exampleRecord\<lparr>caseClosed := Some ''2025-02-01''\<rparr>"

definition exampleOtherRecord :: CodeEnforcementCaseRecord where
  "exampleOtherRecord =
     \<lparr> caseNo = ''CC25-0774'', caseOpened = None, caseClosed = None,
       caseType = ''CODE COMPLIANCE'', caseSubType = [], siteAddress = [], rawData = [] \<rparr>"

definition exampleRow :: "(string \<Rightarrow> string) \<Rightarrow> case_state_row" where
  "exampleRow h =
     \<lparr> case_no = ''CE24-0001'', case_opened = Some ''2025-01-01'', case_closed = None,
       case_status = ''open'', content_hash = generateCaseHash h exampleRecord,
       threefold_ticket_id = Some 42, case_type = ''CODE ENFORCEMENT'',
       case_subtype = ''MULTIPLE VIOLATIONS'', site_address = ''1 Main St, Corona, CA'',
       raw_data = [], last_seen_at = 900, created_at = 900 \<rparr>"

definition linkedWorld :: "(string \<Rightarrow> string) \<Rightarrow> world" where
  "linkedWorld h = freshWorld\<lparr>case_state := [exampleRow h]\<rparr>"

definition exampleChange :: "(string \<Rightarrow> string) \<Rightarrow> CaseStateChange" where
  "exampleChange h =
     \<lparr> change_caseNo = ''CE24-0001'', change_record = exampleClosedRecord,
       previousHash = Some (generateCaseHash h exampleRecord),
       newHash = generateCaseHash h exampleClosedRecord, isNew = False,
       previousOpened = Some ''2025-01-01'', previousClosed = None,
       previousStatus = Some ''open'', threefoldTicketId = Some 42 \<rparr>"

definition exampleRows :: "csv_row list" where
  "exampleRows =
     [[(''CASE_NO'', ''CE24-0001''), (''STARTED'', ''1/1/2025 12:00:00 AM''), (''CLOSED'', '''')],
      [(''CASE_NO'', ''AB12-345''), (''STARTED'', ''1/2/2025'')]]"

text \<open>
  Three more settings: a remote store that answers every request with status 500 and a
  body that happens to contain the digits 405; a database whose second call (the
  \<^verbatim>\<open>pool.connect\<close> of \<^verbatim>\<open>diffCases\<close>) fails; and a world that holds the row of the first
  case without a ticket link.
\<close>

definition overloadedServer :: "request list \<Rightarrow> request \<Rightarrow> response" where
  "overloadedServer history rq = HttpResponse 500 ''upstream timed out (trace 914052)'' []"

definition overloadedEnv :: "(string \<Rightarrow> string) \<Rightarrow> env" where
  "overloadedEnv h = (exampleEnv h)\<lparr>remoteServer := overloadedServer\<rparr>"


definition unlinkedWorld :: "(string \<Rightarrow> string) \<Rightarrow> world" where
  "unlinkedWorld h = freshWorld\<lparr>case_state := [(exampleRow h)\<lparr>threefold_ticket_id := None\<rparr>]\<rparr>"






section \<open>Evaluation\<close>

text \<open>The definitions a run unfolds to, for evaluating it on concrete inputs.\<close>

lemmas run_defs = processCasesSync_def syncBody_def diffCases_def upsertCaseState_def
  createSyncLog_def completeSyncLog_def connect_def dbCall_def andThen_def succeed_def
  upsertBatch_def upsertBatches.simps updateCaseThreefoldId_def uniqueRecords_def
  selectCaseStates_def changesOf_def processChange_def findTicket_def
  findTicketByCaseNumber_def searchTicketsByCustomField_def getTicketById_def
  updateTicketCustomFields_def fetch_def updateFields_def currentOpened_def currentClosed_def
  currentStatus_def wantOpened_def wantClosed_def wantStatus_def determineCaseStatus_def
  truthy_def orNull_def ok_def count_def excludedRow_def doUpdateSet_def noFields_def
  BATCH_SIZE_def Let_def CaseStateRow.truncate_def

lemmas example_defs = exampleRecord_def exampleTicket_def exampleServer_def exampleEnv_def
  freshWorld_def exampleClosedRecord_def exampleOtherRecord_def exampleRow_def
  linkedWorld_def exampleChange_def

lemma example_run_completes:
  "fst (processCasesSync (exampleEnv h) [exampleRecord] freshWorld) = Inr ()"
  by (simp add: run_defs example_defs)

section \<open>Deduplication, the table and the frame of each operation\<close>

lemma map_of_Map_set: "map_of (Map_set k v m) = (map_of m)(k \<mapsto> v)"
  by (induction m) auto

lemma keys_Map_set:
  "map fst (Map_set k v m) = (if k \<in> set (map fst m) then map fst m else map fst m @ [k])"
  by (induction m) (auto split: if_splits)

lemma distinct_Map_set: "distinct (map fst m) \<Longrightarrow> distinct (map fst (Map_set k v m))"
  by (simp add: keys_Map_set)

lemma set_Map_set_subset: "set (Map_set k v m) \<subseteq> insert (k, v) (set m)"
  by (induction m) (auto split: if_splits)


lemma keyed_Map_set: "keyed m \<Longrightarrow> keyed (Map_set (caseNo r) r m)"
  using set_Map_set_subset [of "caseNo r" r m] by (auto simp: keyed_def)

lemma keyed_keys: "keyed m \<Longrightarrow> map caseNo (map snd m) = map fst m"
  by (induction m) (auto simp: keyed_def)

lemma keyed_Nil: "keyed []"
  by (simp add: keyed_def)

lemma fold_Map_set_inv:
  "keyed m \<Longrightarrow> distinct (map fst m) \<Longrightarrow>
   keyed (fold (\<lambda>r. Map_set (caseNo r) r) rs m) \<and>
   distinct (map fst (fold (\<lambda>r. Map_set (caseNo r) r) rs m))"
  by (induction rs arbitrary: m) (auto simp: keyed_Map_set distinct_Map_set)

lemma fold_Map_set_keys:
  "set (map fst (fold (\<lambda>r. Map_set (caseNo r) r) rs m)) = set (map fst m) \<union> caseNo ` set rs"
proof (induction rs arbitrary: m)
  case Nil
  then show ?case by simp
next
  case (Cons r rs)
  have "set (map fst (Map_set (caseNo r) r m)) = insert (caseNo r) (set (map fst m))"
    by (simp only: keys_Map_set) auto
  then show ?case
    using Cons.IH [of "Map_set (caseNo r) r m"] by auto
qed

lemma find_app:
  "find P (xs @ ys) = (case find P xs of None \<Rightarrow> find P ys | Some x \<Rightarrow> Some x)"
  by (induction xs) auto

lemma map_of_fold_Map_set:
  "map_of (fold (\<lambda>r. Map_set (caseNo r) r) rs m) k =
     (case find (\<lambda>r. caseNo r = k) (rev rs) of None \<Rightarrow> map_of m k | Some r \<Rightarrow> Some r)"
proof (induction rs arbitrary: m)
  case Nil
  then show ?case by simp
next
  case (Cons r rs)
  show ?case
    by (simp add: Cons.IH map_of_Map_set find_app split: option.splits)
qed

lemma uniqueRecords_keyed:
  "keyed (fold (\<lambda>r. Map_set (caseNo r) r) rs [])"
  "distinct (map fst (fold (\<lambda>r. Map_set (caseNo r) r) rs []))"
  using fold_Map_set_inv [of "[]" rs] by (simp_all add: keyed_Nil)

lemma uniqueRecords_caseNos:
  "map caseNo (uniqueRecords rs) = map fst (fold (\<lambda>r. Map_set (caseNo r) r) rs [])"
  unfolding uniqueRecords_def by (rule keyed_keys) (rule uniqueRecords_keyed)

lemma uniqueRecords_distinct: "distinct (map caseNo (uniqueRecords rs))"
  by (simp only: uniqueRecords_caseNos uniqueRecords_keyed)

lemma uniqueRecords_keys: "caseNo ` set (uniqueRecords rs) = caseNo ` set rs"
proof -
  have "set (map caseNo (uniqueRecords rs)) = caseNo ` set rs"
    using fold_Map_set_keys [of rs "[]"] by (simp only: uniqueRecords_caseNos) simp
  then show ?thesis by simp
qed

lemma uniqueRecords_last:
  "r \<in> set (uniqueRecords rs) \<longleftrightarrow> find (\<lambda>x. caseNo x = caseNo r) (rev rs) = Some r"
proof -
  let ?m = "fold (\<lambda>r. Map_set (caseNo r) r) rs []"
  have inv: "keyed ?m" "distinct (map fst ?m)"
    by (rule uniqueRecords_keyed)+
  have "r \<in> set (uniqueRecords rs) \<longleftrightarrow> (caseNo r, r) \<in> set ?m"
    using inv(1) by (force simp: uniqueRecords_def keyed_def)
  also have "\<dots> \<longleftrightarrow> map_of ?m (caseNo r) = Some r"
    using inv(2) by (auto dest: map_of_SomeD)
  also have "\<dots> \<longleftrightarrow> find (\<lambda>x. caseNo x = caseNo r) (rev rs) = Some r"
    by (simp add: map_of_fold_Map_set split: option.splits)
  finally show ?thesis .
qed

lemma fold_Map_set_fresh:
  "distinct (map caseNo rs) \<Longrightarrow> caseNo ` set rs \<inter> set (map fst m) = {} \<Longrightarrow>
   fold (\<lambda>r. Map_set (caseNo r) r) rs m = m @ map (\<lambda>r. (caseNo r, r)) rs"
proof (induction rs arbitrary: m)
  case Nil
  then show ?case by simp
next
  case (Cons r rs)
  have fresh: "caseNo r \<notin> set (map fst m)"
    using Cons.prems(2) by auto
  have step: "Map_set (caseNo r) r m = m @ [(caseNo r, r)]"
    using fresh by (induction m) auto
  have "fold (\<lambda>r. Map_set (caseNo r) r) rs (m @ [(caseNo r, r)]) =
        (m @ [(caseNo r, r)]) @ map (\<lambda>r. (caseNo r, r)) rs"
    using Cons.prems by (intro Cons.IH) auto
  then show ?case by (simp add: step)
qed

lemma uniqueRecords_id: "distinct (map caseNo rs) \<Longrightarrow> uniqueRecords rs = rs"
  using fold_Map_set_fresh [of rs "[]"] by (simp add: uniqueRecords_def comp_def)

lemma uniqueRecords_idem: "uniqueRecords (uniqueRecords rs) = uniqueRecords rs"
  by (simp add: uniqueRecords_id uniqueRecords_distinct)

lemma doUpdateSet_simps [simp]:
  "case_no (doUpdateSet now e row) = case_no row"
  "threefold_ticket_id (doUpdateSet now e row) = threefold_ticket_id row"
  "created_at (doUpdateSet now e row) = created_at row"
  "content_hash (doUpdateSet now e row) = content_hash e"
  "last_seen_at (doUpdateSet now e row) = now"
  "case_opened (doUpdateSet now e row) = case_opened e"
  "case_closed (doUpdateSet now e row) = case_closed e"
  "case_status (doUpdateSet now e row) = case_status e"
  "case_type (doUpdateSet now e row) = case_type e"
  "case_subtype (doUpdateSet now e row) = case_subtype e"
  "site_address (doUpdateSet now e row) = site_address e"
  "raw_data (doUpdateSet now e row) = raw_data e"
  by (simp_all add: doUpdateSet_def)

lemma keys_insertOnConflict:
  "map case_no (insertOnConflict now e t) =
     (if case_no e \<in> set (map case_no t) then map case_no t else map case_no t @ [case_no e])"
  by (induction t) (auto split: if_splits)

lemma keyset_insertOnConflict:
  "case_no ` set (insertOnConflict now e t) = insert (case_no e) (case_no ` set t)"
  by (induction t) auto

lemma distinct_insertOnConflict:
  "distinct (map case_no t) \<Longrightarrow> distinct (map case_no (insertOnConflict now e t))"
  by (simp add: keys_insertOnConflict)

lemma rowOf_insertOnConflict:
  "rowOf (insertOnConflict now e t) k =
     (if k = case_no e
      then Some (case rowOf t k of None \<Rightarrow> e | Some row \<Rightarrow> doUpdateSet now e row)
      else rowOf t k)"
  by (induction t) (auto simp: rowOf_def)

lemma rowOf_None_iff: "rowOf t k = None \<longleftrightarrow> k \<notin> set (map case_no t)"
  by (auto simp: rowOf_def find_None_iff)

lemma rowOf_Some_key: "rowOf t k = Some row \<Longrightarrow> case_no row = k \<and> row \<in> set t"
  by (auto simp: rowOf_def find_Some_iff)


lemma excludedRow_simps [simp]:
  "case_no (excludedRow h now r) = caseNo r"
  "content_hash (excludedRow h now r) = generateCaseHash h r"
  "threefold_ticket_id (excludedRow h now r) = None"
  "last_seen_at (excludedRow h now r) = now"
  "created_at (excludedRow h now r) = now"
  "case_opened (excludedRow h now r) = caseOpened r"
  "case_closed (excludedRow h now r) = caseClosed r"
  "case_status (excludedRow h now r) = determineCaseStatus (caseOpened r) (caseClosed r)"
  "case_type (excludedRow h now r) = caseType r"
  "case_subtype (excludedRow h now r) = caseSubType r"
  "site_address (excludedRow h now r) = siteAddress r"
  "raw_data (excludedRow h now r) = rawData r"
  by (simp_all add: excludedRow_def)

lemma keys_fold_insert:
  "set (map case_no (fold (\<lambda>record. insertOnConflict now (excludedRow h now record)) batch t)) =
   set (map case_no t) \<union> caseNo ` set batch"
  by (induction batch arbitrary: t) (auto simp: keyset_insertOnConflict)

lemma distinct_fold_insert:
  "distinct (map case_no t) \<Longrightarrow>
   distinct (map case_no (fold (\<lambda>record. insertOnConflict now (excludedRow h now record)) batch t))"
  by (induction batch arbitrary: t) (auto simp: distinct_insertOnConflict)

lemma rowOf_fold_insert_other:
  "k \<notin> caseNo ` set batch \<Longrightarrow>
   rowOf (fold (\<lambda>record. insertOnConflict now (excludedRow h now record)) batch t) k = rowOf t k"
  by (induction batch arbitrary: t) (auto simp: rowOf_insertOnConflict)

lemma rowOf_fold_insert_in:
  "distinct (map caseNo batch) \<Longrightarrow> r \<in> set batch \<Longrightarrow>
   rowOf (fold (\<lambda>record. insertOnConflict now (excludedRow h now record)) batch t) (caseNo r) =
     Some (case rowOf t (caseNo r) of None \<Rightarrow> excludedRow h now r
           | Some row \<Rightarrow> doUpdateSet now (excludedRow h now r) row)"
proof (induction batch arbitrary: t)
  case Nil
  then show ?case by simp
next
  case (Cons x batch)
  show ?case
  proof (cases "r = x")
    case True
    then have "caseNo r \<notin> caseNo ` set batch"
      using Cons.prems(1) by auto
    then show ?thesis
      using True by (auto simp: rowOf_fold_insert_other rowOf_insertOnConflict split: option.splits)
  next
    case False
    then have r: "r \<in> set batch"
      using Cons.prems by auto
    moreover have "caseNo x \<notin> caseNo ` set batch"
      using Cons.prems(1) by simp
    ultimately have ne: "caseNo r \<noteq> caseNo x"
      by (metis imageI)
    show ?thesis
      using Cons.IH [OF _ r, of "insertOnConflict now (excludedRow h now x) t"] Cons.prems(1) ne
      by (simp add: rowOf_insertOnConflict)
  qed
qed

lemma andThen_cases:
  assumes "andThen m f w = (res, w')"
  obtains (throw) e where "m w = (Inl e, w')" "res = Inl e"
        | (continue) a w1 where "m w = (Inr a, w1)" "f a w1 = (res, w')"
  using assms by (auto simp: andThen_def split: prod.splits sum.splits)

lemma dbCall_cases:
  assumes "dbCall env stmt w = (res, w')"
  obtains (fail) msg where "dbFailure env (dbCalls w) = Some msg" "res = Inl (Error msg)"
            "w' = w\<lparr>dbCalls := Suc (dbCalls w)\<rparr>"
        | (run) "dbFailure env (dbCalls w) = None"
            "stmt (dbNow env (dbCalls w)) (w\<lparr>dbCalls := Suc (dbCalls w)\<rparr>) = (res, w')"
  using assms by (auto simp: dbCall_def Let_def split: option.splits)

lemma succeed_eq [simp]: "succeed a w = (res, w') \<longleftrightarrow> res = Inr a \<and> w' = w"
  by (auto simp: succeed_def)

lemma connect_result:
  assumes "connect env w = (res, w')"
  shows "w' = w\<lparr>dbCalls := Suc (dbCalls w)\<rparr>"
    and "res = (case dbFailure env (dbCalls w) of None \<Rightarrow> Inr () | Some msg \<Rightarrow> Inl (Error msg))"
  using assms unfolding connect_def by (auto elim!: dbCall_cases)

lemma createSyncLog_result:
  assumes "createSyncLog env syncType w = (res, w')"
  shows "case_state w' = case_state w" "requests w' = requests w"
    "searchApiAvailable w' = searchApiAvailable w" "dbCalls w' = Suc (dbCalls w)"
  using assms unfolding createSyncLog_def by (auto elim!: dbCall_cases simp: Let_def)


lemma completeSyncLog_frame:
  assumes "completeSyncLog env syncId n ch er msg w = (res, w')"
  shows "case_state w' = case_state w" "requests w' = requests w"
    "searchApiAvailable w' = searchApiAvailable w" "dbCalls w' = Suc (dbCalls w)"
    "map log_id (sync_log w') = map log_id (sync_log w)"
    "res = (case dbFailure env (dbCalls w) of None \<Rightarrow> Inr () | Some m \<Rightarrow> Inl (Error m))"
  using assms unfolding completeSyncLog_def by (auto elim!: dbCall_cases simp: comp_def)


lemma updateCaseThreefoldId_frame:
  assumes "updateCaseThreefoldId env k tid w = (res, w')"
  shows "sync_log w' = sync_log w \<and> sync_log_id_seq w' = sync_log_id_seq w \<and>
    requests w' = requests w \<and> searchApiAvailable w' = searchApiAvailable w \<and>
    dbCalls w' = Suc (dbCalls w) \<and> map case_no (case_state w') = map case_no (case_state w)"
  using assms unfolding updateCaseThreefoldId_def by (auto elim!: dbCall_cases)

lemma diffCases_frame:
  assumes "diffCases env rs w = (res, w')"
  shows "case_state w' = case_state w" "sync_log w' = sync_log w"
    "sync_log_id_seq w' = sync_log_id_seq w"
    "requests w' = requests w" "searchApiAvailable w' = searchApiAvailable w"
    "dbCalls w < dbCalls w'"
  using assms unfolding diffCases_def Let_def connect_def
  by (auto elim!: andThen_cases dbCall_cases)

lemma diffCases_Inr:
  assumes "diffCases env rs w = (Inr changes, w')"
  shows "changes = concat (map (changesOf (sha256hex env)
           (fold (\<lambda>row m. Map_set (case_no row) row m)
              (selectCaseStates (map caseNo (uniqueRecords rs)) (case_state w)) []))
           (uniqueRecords rs))"
  using assms unfolding diffCases_def Let_def connect_def
  by (auto elim!: andThen_cases dbCall_cases)


lemma upsertBatch_frame:
  assumes "upsertBatch env batch w = (res, w')"
  shows "sync_log w' = sync_log w" "sync_log_id_seq w' = sync_log_id_seq w"
    "requests w' = requests w" "searchApiAvailable w' = searchApiAvailable w"
    "dbCalls w' = Suc (dbCalls w)"
  using assms unfolding upsertBatch_def by (auto elim!: dbCall_cases split: if_splits)

lemma upsertBatch_table:
  assumes "upsertBatch env batch w = (res, w')"
  shows "case_state w' = case_state w \<or>
         (res = Inr () \<and> distinct (map caseNo batch) \<and>
          case_state w' =
            fold (\<lambda>record. insertOnConflict (dbNow env (dbCalls w))
                    (excludedRow (sha256hex env) (dbNow env (dbCalls w)) record))
              batch (case_state w))"
  using assms unfolding upsertBatch_def by (auto elim!: dbCall_cases split: if_splits)

lemma upsertBatch_Inr:
  assumes "upsertBatch env batch w = (Inr u, w')"
  shows "distinct (map caseNo batch)"
    "case_state w' =
       fold (\<lambda>record. insertOnConflict (dbNow env (dbCalls w))
               (excludedRow (sha256hex env) (dbNow env (dbCalls w)) record))
         batch (case_state w)"
  using assms unfolding upsertBatch_def by (auto elim!: dbCall_cases split: if_splits)

lemma upsertBatches_rel:
  assumes run: "upsertBatches env remaining w = (res, w')"
    and refl: "\<And>w. R w w"
    and trans: "\<And>a b c. R a b \<Longrightarrow> R b c \<Longrightarrow> R a c"
    and step: "\<And>batch w r w1. set batch \<subseteq> set remaining \<Longrightarrow> upsertBatch env batch w = (r, w1) \<Longrightarrow> R w w1"
  shows "R w w'"
  using run step
proof (induction remaining arbitrary: w rule: length_induct)
  case (1 remaining)
  show ?case
  proof (cases "remaining = []")
    case True
    then show ?thesis
      using "1.prems"(1) refl by (simp add: upsertBatches.simps)
  next
    case False
    obtain r1 w1 where b: "upsertBatch env (take BATCH_SIZE remaining) w = (r1, w1)"
      by (cases "upsertBatch env (take BATCH_SIZE remaining) w")
    have first: "R w w1"
      using "1.prems"(2) [OF _ b] by (simp add: set_take_subset)
    show ?thesis
    proof (cases r1)
      case (Inl e)
      then have "w' = w1"
        using "1.prems"(1) False b by (simp add: upsertBatches.simps)
      then show ?thesis using first by simp
    next
      case (Inr u)
      then have rest: "upsertBatches env (drop BATCH_SIZE remaining) w1 = (res, w')"
        using "1.prems"(1) False b by (simp add: upsertBatches.simps)
      have shorter: "length (drop BATCH_SIZE remaining) < length remaining"
        using False by (simp add: BATCH_SIZE_def)
      have "R w1 w'"
      proof (rule "1.IH" [rule_format, OF shorter rest])
        fix batch w r w2
        assume "set batch \<subseteq> set (drop BATCH_SIZE remaining)" "upsertBatch env batch w = (r, w2)"
        then show "R w w2"
          using "1.prems"(2) [of batch w r w2] set_drop_subset [of BATCH_SIZE remaining] by blast
      qed
      then show ?thesis using first trans by blast
    qed
  qed
qed

lemma upsertBatches_frame:
  assumes "upsertBatches env remaining w = (res, w')"
  shows "sync_log w' = sync_log w \<and> sync_log_id_seq w' = sync_log_id_seq w \<and>
    requests w' = requests w \<and> searchApiAvailable w' = searchApiAvailable w \<and>
    dbCalls w \<le> dbCalls w'"
  by (rule upsertBatches_rel [OF assms, where R = "\<lambda>w w'. sync_log w' = sync_log w \<and> sync_log_id_seq w' = sync_log_id_seq w \<and>
    requests w' = requests w \<and> searchApiAvailable w' = searchApiAvailable w \<and>
    dbCalls w \<le> dbCalls w'"]) (auto dest: upsertBatch_frame)

lemma keyset_fold_insert:
  "case_no ` set (fold (\<lambda>record. insertOnConflict now (excludedRow h now record)) batch t) =
   case_no ` set t \<union> caseNo ` set batch"
  using keys_fold_insert [of now h batch t] by simp

lemma upsertBatch_keyset:
  assumes "upsertBatch env batch w = (res, w')"
  shows "case_no ` set (case_state w') = case_no ` set (case_state w) \<or>
         case_no ` set (case_state w') = case_no ` set (case_state w) \<union> caseNo ` set batch"
  using upsertBatch_table [OF assms]
proof
  assume "case_state w' = case_state w"
  then show ?thesis by simp
next
  assume "res = Inr () \<and> distinct (map caseNo batch) \<and>
          case_state w' =
            fold (\<lambda>record. insertOnConflict (dbNow env (dbCalls w))
                    (excludedRow (sha256hex env) (dbNow env (dbCalls w)) record))
              batch (case_state w)"
  then have "case_no ` set (case_state w') = case_no ` set (case_state w) \<union> caseNo ` set batch"
    by (simp add: keyset_fold_insert)
  then show ?thesis by simp
qed

lemma upsertBatch_keys_upper:
  assumes "upsertBatch env batch w = (res, w')"
  shows "case_no ` set (case_state w') \<subseteq> case_no ` set (case_state w) \<union> caseNo ` set batch"
  using upsertBatch_keyset [OF assms] by blast

lemma upsertBatch_keys_lower:
  assumes "upsertBatch env batch w = (res, w')"
  shows "case_no ` set (case_state w) \<subseteq> case_no ` set (case_state w')"
  using upsertBatch_keyset [OF assms] by blast

lemma upsertBatch_distinct:
  assumes "upsertBatch env batch w = (res, w')" "distinct (map case_no (case_state w))"
  shows "distinct (map case_no (case_state w'))"
  using upsertBatch_table [OF assms(1)] assms(2) distinct_fold_insert by auto

lemma upsertBatch_other:
  assumes "upsertBatch env batch w = (res, w')" "k \<notin> caseNo ` set batch"
  shows "rowOf (case_state w') k = rowOf (case_state w) k"
  using upsertBatch_table [OF assms(1)] assms(2) by (auto simp: rowOf_fold_insert_other)

lemma upsertBatches_keys_upper:
  assumes "upsertBatches env remaining w = (res, w')"
  shows "case_no ` set (case_state w') \<subseteq> case_no ` set (case_state w) \<union> caseNo ` set remaining"
proof (rule upsertBatches_rel [OF assms, where R = "\<lambda>w w'.
    case_no ` set (case_state w') \<subseteq> case_no ` set (case_state w) \<union> caseNo ` set remaining"], goal_cases)
  case (1 w)
  then show ?case by simp
next
  case (2 a b c)
  then show ?case by blast
next
  case (3 batch w r w1)
  then show ?case
    using upsertBatch_keys_upper [OF 3(2)] by blast
qed

lemma upsertBatches_keys_lower:
  assumes "upsertBatches env remaining w = (res, w')"
  shows "case_no ` set (case_state w) \<subseteq> case_no ` set (case_state w')"
  by (rule upsertBatches_rel [OF assms, where R = "\<lambda>w w'.
    case_no ` set (case_state w) \<subseteq> case_no ` set (case_state w')"])
    (blast dest: upsertBatch_keys_lower)+

lemma upsertBatches_distinct:
  assumes "upsertBatches env remaining w = (res, w')" "distinct (map case_no (case_state w))"
  shows "distinct (map case_no (case_state w'))"
proof -
  have "distinct (map case_no (case_state w)) \<longrightarrow> distinct (map case_no (case_state w'))"
    by (rule upsertBatches_rel [OF assms(1), where R = "\<lambda>w w'.
      distinct (map case_no (case_state w)) \<longrightarrow> distinct (map case_no (case_state w'))"])
      (blast dest: upsertBatch_distinct)+
  then show ?thesis using assms(2) by simp
qed

lemma upsertBatches_other:
  assumes "upsertBatches env remaining w = (res, w')" "k \<notin> caseNo ` set remaining"
  shows "rowOf (case_state w') k = rowOf (case_state w) k"
proof (rule upsertBatches_rel [OF assms(1), where R = "\<lambda>w w'.
    rowOf (case_state w') k = rowOf (case_state w) k"], goal_cases)
  case (1 w)
  then show ?case by simp
next
  case (2 a b c)
  then show ?case by simp
next
  case (3 batch w r w1)
  have "k \<notin> caseNo ` set batch"
    using 3(1) assms(2) by blast
  then show ?case
    by (rule upsertBatch_other [OF 3(2)])
qed

lemma upsertBatches_Inr_row:
  assumes "upsertBatches env remaining w = (Inr u, w')"
    and "distinct (map caseNo remaining)" and "r \<in> set remaining"
  shows "\<exists>k. dbCalls w \<le> k \<and> k < dbCalls w' \<and>
           rowOf (case_state w') (caseNo r) =
             Some (upserted (sha256hex env) (dbNow env k) r (rowOf (case_state w) (caseNo r)))"
  using assms
proof (induction remaining arbitrary: w rule: length_induct)
  case (1 remaining)
  let ?first = "take BATCH_SIZE remaining" and ?rest = "drop BATCH_SIZE remaining"
  have nonempty: "remaining \<noteq> []"
    using "1.prems"(3) by auto
  obtain r1 w1 where b: "upsertBatch env ?first w = (r1, w1)"
    by (cases "upsertBatch env ?first w")
  have r1: "r1 = Inr ()"
    using "1.prems"(1) nonempty b by (cases r1) (simp_all add: upsertBatches.simps)
  have rest: "upsertBatches env ?rest w1 = (Inr u, w')"
    using "1.prems"(1) nonempty b r1 by (simp add: upsertBatches.simps)
  have calls1: "dbCalls w1 = Suc (dbCalls w)"
    using upsertBatch_frame(5) [OF b] .
  have calls2: "dbCalls w1 \<le> dbCalls w'"
    using upsertBatches_frame [OF rest] by simp
  have "distinct (map caseNo (?first @ ?rest))"
    using "1.prems"(2) by simp
  then have d1: "distinct (map caseNo ?first)" and d2: "distinct (map caseNo ?rest)"
    and disj: "caseNo ` set ?first \<inter> caseNo ` set ?rest = {}"
    by (simp_all only: map_append distinct_append set_map)
  have "set remaining = set ?first \<union> set ?rest"
    by (metis append_take_drop_id set_append)
  then have "r \<in> set ?first \<or> r \<in> set ?rest"
    using "1.prems"(3) by blast
  then consider (first) "r \<in> set ?first" | (rest) "r \<in> set ?rest" "r \<notin> set ?first"
    by auto
  then show ?case
  proof cases
    case first
    have "case_state w1 =
       fold (\<lambda>record. insertOnConflict (dbNow env (dbCalls w))
               (excludedRow (sha256hex env) (dbNow env (dbCalls w)) record))
         ?first (case_state w)"
      using upsertBatch_Inr(2) b r1 by blast
    then have row1: "rowOf (case_state w1) (caseNo r) =
        Some (upserted (sha256hex env) (dbNow env (dbCalls w)) r (rowOf (case_state w) (caseNo r)))"
      using rowOf_fold_insert_in [OF d1 first] by (simp add: upserted_def)
    have "caseNo r \<notin> caseNo ` set ?rest"
      using disj first by blast
    then have "rowOf (case_state w') (caseNo r) = rowOf (case_state w1) (caseNo r)"
      by (rule upsertBatches_other [OF rest])
    then show ?thesis
      using row1 calls1 calls2 by (intro exI [of _ "dbCalls w"]) simp
  next
    case rest
    have shorter: "length ?rest < length remaining"
      using nonempty by (simp add: BATCH_SIZE_def)
    obtain k where k: "dbCalls w1 \<le> k" "k < dbCalls w'"
      "rowOf (case_state w') (caseNo r) =
         Some (upserted (sha256hex env) (dbNow env k) r (rowOf (case_state w1) (caseNo r)))"
      using "1.IH" [rule_format, OF shorter \<open>upsertBatches env ?rest w1 = (Inr u, w')\<close> d2 rest(1)]
      by blast
    have "caseNo r \<notin> caseNo ` set ?first"
      using disj rest(1) by blast
    then have "rowOf (case_state w1) (caseNo r) = rowOf (case_state w) (caseNo r)"
      by (rule upsertBatch_other [OF b])
    then show ?thesis
      using k calls1 by (intro exI [of _ k]) simp
  qed
qed


lemma contentHashOf_insertOnConflict:
  "contentHashOf (insertOnConflict now (excludedRow h now r) t) =
   (contentHashOf t)(caseNo r \<mapsto> generateCaseHash h r)"
  by (rule ext) (simp add: contentHashOf_def rowOf_insertOnConflict split: option.splits)

lemma hash_fold_insert:
  "\<forall>r \<in> set batch. contentHashOf t (caseNo r) = Some (generateCaseHash h r) \<Longrightarrow>
   contentHashOf (fold (\<lambda>record. insertOnConflict now (excludedRow h now record)) batch t) =
   contentHashOf t"
proof (induction batch arbitrary: t)
  case Nil
  then show ?case by simp
next
  case (Cons x batch)
  let ?t1 = "insertOnConflict now (excludedRow h now x) t"
  have same: "contentHashOf ?t1 = contentHashOf t"
    using Cons.prems by (simp add: contentHashOf_insertOnConflict fun_upd_idem)
  then show ?case
    using Cons.IH [of ?t1] Cons.prems by simp
qed

lemma upsertBatches_hash_stable:
  assumes "upsertBatches env remaining w = (res, w')"
    and "\<forall>r \<in> set remaining.
           contentHashOf (case_state w) (caseNo r) = Some (generateCaseHash (sha256hex env) r)"
  shows "contentHashOf (case_state w') = contentHashOf (case_state w)"
proof -
  let ?pre = "\<lambda>w. \<forall>r \<in> set remaining.
           contentHashOf (case_state w) (caseNo r) = Some (generateCaseHash (sha256hex env) r)"
  let ?R = "\<lambda>w w'. ?pre w \<longrightarrow> contentHashOf (case_state w') = contentHashOf (case_state w)"
  have "?R w w'"
  proof (rule upsertBatches_rel [OF assms(1), where R = ?R], goal_cases)
    case (1 w)
    then show ?case by simp
  next
    case (2 a b c)
    then show ?case by simp
  next
    case (3 batch w r w1)
    show ?case
    proof
      assume pre: "?pre w"
      then have "\<forall>r \<in> set batch.
           contentHashOf (case_state w) (caseNo r) = Some (generateCaseHash (sha256hex env) r)"
        using 3(1) by blast
      then show "contentHashOf (case_state w1) = contentHashOf (case_state w)"
        using upsertBatch_table [OF 3(2)] by (auto simp: hash_fold_insert)
    qed
  qed
  then show ?thesis using assms(2) by simp
qed

lemma upsertCaseState_cases:
  assumes "upsertCaseState env records w = (res, w')"
  obtains (empty) "records = []" "res = Inr ()" "w' = w"
    | (noconnect) msg where "records \<noteq> []" "dbFailure env (dbCalls w) = Some msg"
        "res = Inl (Error msg)" "w' = w\<lparr>dbCalls := Suc (dbCalls w)\<rparr>"
    | (batches) "records \<noteq> []" "dbFailure env (dbCalls w) = None"
        "upsertBatches env (uniqueRecords records) (w\<lparr>dbCalls := Suc (dbCalls w)\<rparr>) = (res, w')"
  using assms unfolding upsertCaseState_def connect_def
  by (auto elim!: andThen_cases dbCall_cases split: if_splits)

lemma upsertCaseState_frame:
  assumes "upsertCaseState env records w = (res, w')"
  shows "sync_log w' = sync_log w \<and> sync_log_id_seq w' = sync_log_id_seq w \<and>
    requests w' = requests w \<and> searchApiAvailable w' = searchApiAvailable w \<and>
    dbCalls w \<le> dbCalls w'"
  using assms
proof (cases rule: upsertCaseState_cases)
  case batches
  then show ?thesis using upsertBatches_frame [OF batches(3)] by simp
qed simp_all

lemma upsertCaseState_keys_upper:
  assumes "upsertCaseState env records w = (res, w')"
  shows "case_no ` set (case_state w') \<subseteq> case_no ` set (case_state w) \<union> caseNo ` set records"
  using assms
proof (cases rule: upsertCaseState_cases)
  case batches
  then show ?thesis
    using upsertBatches_keys_upper [OF batches(3)] by (simp add: uniqueRecords_keys)
qed simp_all

lemma upsertCaseState_distinct:
  assumes "upsertCaseState env records w = (res, w')" "distinct (map case_no (case_state w))"
  shows "distinct (map case_no (case_state w'))"
  using assms(1)
proof (cases rule: upsertCaseState_cases)
  case batches
  then show ?thesis
    using upsertBatches_distinct [OF batches(3)] assms(2) by simp
qed (simp_all add: assms(2))

lemma upsertCaseState_other:
  assumes "upsertCaseState env records w = (res, w')" "k \<notin> caseNo ` set records"
  shows "rowOf (case_state w') k = rowOf (case_state w) k"
  using assms(1)
proof (cases rule: upsertCaseState_cases)
  case batches
  then show ?thesis
    using upsertBatches_other [OF batches(3), of k] assms(2) by (simp add: uniqueRecords_keys)
qed simp_all

lemma upsertCaseState_hash_stable:
  assumes "upsertCaseState env records w = (res, w')"
    and "\<forall>r \<in> set (uniqueRecords records).
           contentHashOf (case_state w) (caseNo r) = Some (generateCaseHash (sha256hex env) r)"
  shows "contentHashOf (case_state w') = contentHashOf (case_state w)"
  using assms(1)
proof (cases rule: upsertCaseState_cases)
  case batches
  then show ?thesis
    using upsertBatches_hash_stable [OF batches(3)] assms(2) by simp
qed simp_all

lemma upsertCaseState_Inr_row:
  assumes "upsertCaseState env records w = (Inr u, w')" and "r \<in> set (uniqueRecords records)"
  shows "\<exists>k. dbCalls w \<le> k \<and> k < dbCalls w' \<and>
           rowOf (case_state w') (caseNo r) =
             Some (upserted (sha256hex env) (dbNow env k) r (rowOf (case_state w) (caseNo r)))"
  using assms(1)
proof (cases rule: upsertCaseState_cases)
  case empty
  then show ?thesis using assms(2) by (simp add: uniqueRecords_def)
next
  case (noconnect msg)
  then show ?thesis by simp
next
  case batches
  obtain k where "Suc (dbCalls w) \<le> k" "k < dbCalls w'"
    "rowOf (case_state w') (caseNo r) =
       Some (upserted (sha256hex env) (dbNow env k) r (rowOf (case_state w) (caseNo r)))"
    using upsertBatches_Inr_row [OF batches(3) uniqueRecords_distinct assms(2)] by auto
  then show ?thesis
    by (intro exI [of _ k]) simp
qed

lemma fetch_result: "fetch env rq w = (rs, w') \<Longrightarrow> w' = w\<lparr>requests := requests w @ [rq]\<rparr>"
  by (auto simp: fetch_def)

lemma searchTicketsByCustomField_world:
  "searchTicketsByCustomField env cf l off ic w = (res, w') \<Longrightarrow>
   w' = w\<lparr>requests := requests w @ [SearchTickets cf l off ic]\<rparr>"
  by (auto simp: searchTicketsByCustomField_def fetch_def split: response.splits if_splits)

lemma getTicketById_world:
  "getTicketById env tid w = (res, w') \<Longrightarrow> w' = w\<lparr>requests := requests w @ [GetTicket tid]\<rparr>"
  by (auto simp: getTicketById_def fetch_def split: response.splits if_splits list.splits)

lemma updateTicketCustomFields_world:
  "updateTicketCustomFields env tid p w = (res, w') \<Longrightarrow>
   w' = w\<lparr>requests := requests w @ [PostCustomFields tid p]\<rparr>"
  by (auto simp: updateTicketCustomFields_def fetch_def split: response.splits if_splits)


lemma findTicketByCaseNumber_frame:
  assumes "findTicketByCaseNumber env k w = (res, w')"
  shows "case_state w' = case_state w \<and> sync_log w' = sync_log w \<and>
    sync_log_id_seq w' = sync_log_id_seq w \<and> dbCalls w' = dbCalls w \<and>
    (searchApiAvailable w' \<longrightarrow> searchApiAvailable w) \<and>
    filter isPost (requests w') = filter isPost (requests w)"
  using assms unfolding findTicketByCaseNumber_def
  by (auto split: if_splits prod.splits sum.splits dest!: searchTicketsByCustomField_world)

lemma findTicket_frame:
  assumes "findTicket env change w = (res, w')"
  shows "case_state w' = case_state w \<and> sync_log w' = sync_log w \<and>
    sync_log_id_seq w' = sync_log_id_seq w \<and> dbCalls w' = dbCalls w \<and>
    (searchApiAvailable w' \<longrightarrow> searchApiAvailable w) \<and>
    filter isPost (requests w') = filter isPost (requests w)"
  using assms unfolding findTicket_def
  by (auto split: option.splits if_splits elim!: andThen_cases
      dest!: findTicketByCaseNumber_frame getTicketById_world)

lemma processChange_frame:
  assumes "processChange env change w = (res, w')"
  shows "sync_log w' = sync_log w \<and> sync_log_id_seq w' = sync_log_id_seq w \<and>
    map case_no (case_state w') = map case_no (case_state w) \<and> dbCalls w \<le> dbCalls w' \<and>
    (searchApiAvailable w' \<longrightarrow> searchApiAvailable w)"
  using assms unfolding processChange_def
  by (auto split: if_splits option.splits elim!: andThen_cases
      dest!: findTicket_frame updateTicketCustomFields_world updateCaseThreefoldId_frame)

lemma processChanges_frame:
  "processChanges env changes c w = (c', w') \<Longrightarrow>
   sync_log w' = sync_log w \<and> sync_log_id_seq w' = sync_log_id_seq w \<and>
    map case_no (case_state w') = map case_no (case_state w) \<and> dbCalls w \<le> dbCalls w' \<and>
    (searchApiAvailable w' \<longrightarrow> searchApiAvailable w)"
proof (induction changes arbitrary: c w)
  case Nil
  then show ?case by simp
next
  case (Cons change changes)
  obtain res w1 where step: "processChange env change w = (res, w1)"
    by (cases "processChange env change w")
  then have rest: "processChanges env changes (count res (c\<lparr>processed := processed c + 1\<rparr>)) w1 = (c', w')"
    using Cons.prems by simp
  show ?case
    using processChange_frame [OF step] Cons.IH [OF rest] by auto
qed

lemma syncBody_Inr:
  assumes "syncBody env syncId records w = (Inr u, w')"
  obtains wa wb ch er where
    "map case_no (case_state wa) = map case_no (case_state w)"
    "sync_log wa = sync_log w" "dbCalls w \<le> dbCalls wa"
    "upsertCaseState env records wa = (Inr (), wb)"
    "completeSyncLog env syncId (length records) ch er None wb = (Inr (), w')"
proof -
  from assms show ?thesis
    unfolding syncBody_def
  proof (cases rule: andThen_cases)
    case (throw e)
    then show ?thesis by simp
  next
    case (continue changes w1)
    note d = diffCases_frame [OF continue(1)]
    show ?thesis
    proof (cases "changes = []")
      case True
      then have "andThen (upsertCaseState env records) (\<lambda>u.
              completeSyncLog env syncId (length records) 0 0 None) w1 = (Inr u, w')"
        using continue(2) by simp
      then show ?thesis
      proof (cases rule: andThen_cases)
        case (continue a wb)
        then show ?thesis
          using that [of w1 wb 0 0] d by simp
      qed simp
    next
      case False
      obtain c w2 where loop: "processChanges env changes
                \<lparr> processed = 0, updated = 0, notFound = 0, noChanges = 0, errors = 0 \<rparr> w1 = (c, w2)"
        by (cases "processChanges env changes
                \<lparr> processed = 0, updated = 0, notFound = 0, noChanges = 0, errors = 0 \<rparr> w1")
      note p = processChanges_frame [OF loop]
      have "andThen (upsertCaseState env records) (\<lambda>u.
               completeSyncLog env syncId (length records) (updated c) (errors c) None) w2 = (Inr u, w')"
        using continue(2) False loop by simp
      then show ?thesis
      proof (cases rule: andThen_cases)
        case (continue a wb)
        then show ?thesis
          using that [of w2 wb "updated c" "errors c"] d p by simp
      qed simp
    qed
  qed
qed

lemma syncBody_frame:
  assumes "syncBody env syncId records w = (res, w')"
  shows "map log_id (sync_log w') = map log_id (sync_log w) \<and> dbCalls w < dbCalls w' \<and>
    case_no ` set (case_state w') \<subseteq> case_no ` set (case_state w) \<union> caseNo ` set records \<and>
    (distinct (map case_no (case_state w)) \<longrightarrow> distinct (map case_no (case_state w')))"
proof -
  from assms show ?thesis
    unfolding syncBody_def
  proof (cases rule: andThen_cases)
    case (throw e)
    then show ?thesis using diffCases_frame [OF throw(1)] by auto
  next
    case (continue changes w1)
    note d = diffCases_frame [OF continue(1)]
    obtain c w2 where loop: "processChanges env changes
                \<lparr> processed = 0, updated = 0, notFound = 0, noChanges = 0, errors = 0 \<rparr> w1 = (c, w2)"
      by (cases "processChanges env changes
                \<lparr> processed = 0, updated = 0, notFound = 0, noChanges = 0, errors = 0 \<rparr> w1")
    note p = processChanges_frame [OF loop]
    obtain ch er where tail: "andThen (upsertCaseState env records) (\<lambda>u.
               completeSyncLog env syncId (length records) ch er None) w2 = (res, w')"
      using continue(2) loop by (cases "changes = []") auto
    have keys2: "case_no ` set (case_state w2) = case_no ` set (case_state w)"
      using p d(1) by (metis set_map)
    have dist2: "distinct (map case_no (case_state w)) \<longrightarrow> distinct (map case_no (case_state w2))"
      using p d(1) by simp
    from tail show ?thesis
    proof (cases rule: andThen_cases)
      case (throw e)
      then show ?thesis
        using upsertCaseState_frame [OF throw(1)] upsertCaseState_keys_upper [OF throw(1)]
          upsertCaseState_distinct [OF throw(1)] d p keys2 dist2 by auto
    next
      case (continue a wb)
      then show ?thesis
        using upsertCaseState_frame [OF continue(1)] upsertCaseState_keys_upper [OF continue(1)]
          upsertCaseState_distinct [OF continue(1)] completeSyncLog_frame [OF continue(2)]
          d p keys2 dist2 by auto
    qed
  qed
qed

lemma map_of_fold_Map_set_gen:
  "map_of (fold (\<lambda>x. Map_set (f x) x) xs m) k =
     (case find (\<lambda>x. f x = k) (rev xs) of None \<Rightarrow> map_of m k | Some x \<Rightarrow> Some x)"
proof (induction xs arbitrary: m)
  case Nil
  then show ?case by simp
next
  case (Cons x xs)
  show ?case
    by (simp add: Cons.IH map_of_Map_set find_app split: option.splits)
qed

lemma find_rev_distinct:
  "distinct (map f xs) \<Longrightarrow> find (\<lambda>x. f x = k) (rev xs) = find (\<lambda>x. f x = k) xs"
proof (induction xs)
  case Nil
  then show ?case by simp
next
  case (Cons x xs)
  have "f x \<notin> f ` set xs"
    using Cons.prems by simp
  then have "\<forall>y \<in> set xs. f y \<noteq> f x"
    by (metis imageI)
  then have "f x = k \<Longrightarrow> find (\<lambda>x. f x = k) xs = None"
    by (simp add: find_None_iff)
  then show ?case
    using Cons by (auto simp: find_app split: option.splits)
qed

lemma find_key_member:
  "k \<in> S \<Longrightarrow> find (\<lambda>x. g x = k \<and> g x \<in> S) xs = find (\<lambda>x. g x = k) xs"
  by (induction xs) auto

lemma find_map_filter:
  "find (\<lambda>y. g y = k) (map t (filter P xs)) =
   map_option t (find (\<lambda>x. g (t x) = k \<and> P x) xs)"
  by (induction xs) auto

lemma truncate_simps [simp]:
  "case_no (CaseStateRow.truncate row) = case_no row"
  "content_hash (CaseStateRow.truncate row) = content_hash row"
  "threefold_ticket_id (CaseStateRow.truncate row) = threefold_ticket_id row"
  by (simp_all add: CaseStateRow.truncate_def)

lemma currentStates_get:
  assumes "distinct (map case_no table)"
  shows "map_of (fold (\<lambda>row m. Map_set (case_no row) row m) (selectCaseStates ks table) []) k =
         (if k \<in> set ks then map_option CaseStateRow.truncate (rowOf table k) else None)"
proof -
  let ?rows = "selectCaseStates ks table"
  have "map case_no ?rows = map case_no (filter (\<lambda>row. case_no row \<in> set ks) table)"
    by (simp add: selectCaseStates_def comp_def)
  then have d: "distinct (map case_no ?rows)"
    using assms by (simp add: distinct_map_filter)
  have "map_of (fold (\<lambda>row m. Map_set (case_no row) row m) ?rows []) k =
          find (\<lambda>row. case_no row = k) ?rows"
    using find_rev_distinct [OF d, of k]
    by (simp add: map_of_fold_Map_set_gen [of case_no] split: option.splits)
  also have "\<dots> = map_option CaseStateRow.truncate
                     (find (\<lambda>row. case_no row = k \<and> case_no row \<in> set ks) table)"
    by (simp add: selectCaseStates_def find_map_filter)
  also have "\<dots> = (if k \<in> set ks then map_option CaseStateRow.truncate (rowOf table k) else None)"
  proof (cases "k \<in> set ks")
    case True
    then show ?thesis by (simp add: rowOf_def find_key_member)
  next
    case False
    then have "find (\<lambda>row. case_no row = k \<and> case_no row \<in> set ks) table = None"
      by (auto simp: find_None_iff)
    then show ?thesis using False by simp
  qed
  finally show ?thesis .
qed

lemma diffCases_nochange:
  assumes "diffCases env records w = (Inr changes, w')"
    and "distinct (map case_no (case_state w))"
    and "\<forall>r \<in> set (uniqueRecords records).
           contentHashOf (case_state w) (caseNo r) = Some (generateCaseHash (sha256hex env) r)"
  shows "changes = []"
proof -
  let ?cs = "fold (\<lambda>row m. Map_set (case_no row) row m)
              (selectCaseStates (map caseNo (uniqueRecords records)) (case_state w)) []"
  have "changesOf (sha256hex env) ?cs r = []" if r: "r \<in> set (uniqueRecords records)" for r
  proof -
    obtain row where row: "rowOf (case_state w) (caseNo r) = Some row"
      "content_hash row = generateCaseHash (sha256hex env) r"
      using assms(3) r by (auto simp: contentHashOf_def)
    have "map_of ?cs (caseNo r) = Some (CaseStateRow.truncate row)"
      using r row(1) by (simp add: currentStates_get [OF assms(2)])
    then show ?thesis
      using row(2) by (simp add: changesOf_def)
  qed
  then show ?thesis
    by (simp add: diffCases_Inr [OF assms(1)])
qed

lemma upserted_simps [simp]:
  "case_no (upserted h now r old) = (case old of None \<Rightarrow> caseNo r | Some row \<Rightarrow> case_no row)"
  "content_hash (upserted h now r old) = generateCaseHash h r"
  "last_seen_at (upserted h now r old) = now"
  "case_opened (upserted h now r old) = caseOpened r"
  "case_closed (upserted h now r old) = caseClosed r"
  "case_status (upserted h now r old) = determineCaseStatus (caseOpened r) (caseClosed r)"
  "case_type (upserted h now r old) = caseType r"
  "case_subtype (upserted h now r old) = caseSubType r"
  "site_address (upserted h now r old) = siteAddress r"
  "raw_data (upserted h now r old) = rawData r"
  "threefold_ticket_id (upserted h now r old) = (case old of None \<Rightarrow> None | Some row \<Rightarrow> threefold_ticket_id row)"
  by (simp_all add: upserted_def split: option.splits)

lemma syncBody_noop:
  assumes "syncBody env syncId records w = (res, w')"
    and "distinct (map case_no (case_state w))"
    and "\<forall>r \<in> set (uniqueRecords records).
           contentHashOf (case_state w) (caseNo r) = Some (generateCaseHash (sha256hex env) r)"
  shows "requests w' = requests w \<and> contentHashOf (case_state w') = contentHashOf (case_state w)"
proof -
  from assms(1) show ?thesis
    unfolding syncBody_def
  proof (cases rule: andThen_cases)
    case (throw e)
    then show ?thesis using diffCases_frame [OF throw(1)] by simp
  next
    case (continue changes w1)
    note d = diffCases_frame [OF continue(1)]
    have "changes = []"
      using diffCases_nochange [OF continue(1) assms(2,3)] .
    then have "andThen (upsertCaseState env records) (\<lambda>u.
              completeSyncLog env syncId (length records) 0 0 None) w1 = (res, w')"
      using continue(2) by simp
    then show ?thesis
    proof (cases rule: andThen_cases)
      case (throw e)
      then show ?thesis
        using upsertCaseState_frame [OF throw(1)] upsertCaseState_hash_stable [OF throw(1)]
          assms(3) d by simp
    next
      case (continue a wb)
      then show ?thesis
        using upsertCaseState_frame [OF continue(1)] upsertCaseState_hash_stable [OF continue(1)]
          completeSyncLog_frame [OF continue(2)] assms(3) d by simp
    qed
  qed
qed

lemma processCasesSync_cases:
  assumes "processCasesSync env records w = (res, w')"
  obtains (nolog) e where "createSyncLog env ''cases'' w = (Inl e, w')" "res = Inl e"
    | (completed) syncId w0 u where "createSyncLog env ''cases'' w = (Inr syncId, w0)"
        "syncBody env syncId records w0 = (Inr u, w')" "res = Inr u"
    | (fatal) syncId w0 err w1 r2 where "createSyncLog env ''cases'' w = (Inr syncId, w0)"
        "syncBody env syncId records w0 = (Inl err, w1)"
        "completeSyncLog env syncId (length records) 0 1 (Some (message err)) w1 = (r2, w')"
        "res = (case r2 of Inl e2 \<Rightarrow> Inl e2 | Inr u \<Rightarrow> Inl err)"
proof -
  from assms show ?thesis
    unfolding processCasesSync_def
  proof (cases rule: andThen_cases)
    case (throw e)
    then show ?thesis by (rule nolog)
  next
    case (continue syncId w0)
    obtain r1 w1 where body: "syncBody env syncId records w0 = (r1, w1)"
      by (cases "syncBody env syncId records w0")
    show ?thesis
    proof (cases r1)
      case (Inr u)
      then have eq: "res = Inr u" "w1 = w'"
        using continue(2) body by simp_all
      show ?thesis
        by (rule completed [OF continue(1) _ eq(1)]) (simp add: body Inr eq(2))
    next
      case (Inl err)
      then have "andThen (completeSyncLog env syncId (length records) 0 1 (Some (message err)))
             (\<lambda>u w2. (Inl err, w2)) w1 = (res, w')"
        using continue(2) body by simp
      then show ?thesis
      proof (cases rule: andThen_cases)
        case (throw e2)
        show ?thesis
          by (rule fatal [OF continue(1) _ throw(1)]) (simp_all add: body Inl throw(2))
      next
        case (continue u w2)
        then have eq: "res = Inl err" "w2 = w'"
          by simp_all
        show ?thesis
          by (rule fatal [OF \<open>createSyncLog env ''cases'' w = (Inr syncId, w0)\<close> _ continue(1) [unfolded eq(2)]])
            (simp_all add: body Inl eq(1))
      qed
    qed
  qed
qed

lemma run_establishes_baseline:
  assumes "processCasesSync env records w = (Inr u, w')"
    and "distinct (map case_no (case_state w))"
  shows "distinct (map case_no (case_state w'))"
    and "\<forall>r \<in> set (uniqueRecords records).
           contentHashOf (case_state w') (caseNo r) = Some (generateCaseHash (sha256hex env) r)"
proof -
  from assms(1) obtain syncId w0 where
    log: "createSyncLog env ''cases'' w = (Inr syncId, w0)" and
    body: "syncBody env syncId records w0 = (Inr u, w')"
  proof (cases rule: processCasesSync_cases)
    case (nolog e)
    then show ?thesis by simp
  next
    case (completed syncId w0 u')
    then show ?thesis using that by simp
  next
    case (fatal syncId w0 err w1 r2)
    then show ?thesis by (cases r2) simp_all
  qed
  from body obtain wa wb ch er where
    wa: "map case_no (case_state wa) = map case_no (case_state w0)" and
    up: "upsertCaseState env records wa = (Inr (), wb)" and
    fin: "completeSyncLog env syncId (length records) ch er None wb = (Inr (), w')"
    by (rule syncBody_Inr)
  have "distinct (map case_no (case_state wa))"
    using wa createSyncLog_result(1) [OF log] assms(2) by simp
  then have "distinct (map case_no (case_state wb))"
    by (rule upsertCaseState_distinct [OF up])
  then show "distinct (map case_no (case_state w'))"
    using completeSyncLog_frame(1) [OF fin] by simp
  show "\<forall>r \<in> set (uniqueRecords records).
           contentHashOf (case_state w') (caseNo r) = Some (generateCaseHash (sha256hex env) r)"
  proof
    fix r assume "r \<in> set (uniqueRecords records)"
    then obtain k where "rowOf (case_state wb) (caseNo r) =
             Some (upserted (sha256hex env) (dbNow env k) r (rowOf (case_state wa) (caseNo r)))"
      using upsertCaseState_Inr_row [OF up] by blast
    then show "contentHashOf (case_state w') (caseNo r) = Some (generateCaseHash (sha256hex env) r)"
      using completeSyncLog_frame(1) [OF fin] by (simp add: contentHashOf_def)
  qed
qed

lemma run_noop:
  assumes "processCasesSync env records w = (res, w')"
    and "distinct (map case_no (case_state w))"
    and "\<forall>r \<in> set (uniqueRecords records).
           contentHashOf (case_state w) (caseNo r) = Some (generateCaseHash (sha256hex env) r)"
  shows "requests w' = requests w \<and> contentHashOf (case_state w') = contentHashOf (case_state w)"
  using assms(1)
proof (cases rule: processCasesSync_cases)
  case (nolog e)
  then show ?thesis using createSyncLog_result(1,2) [OF nolog(1)] by simp
next
  case (completed syncId w0 u)
  have c: "case_state w0 = case_state w" "requests w0 = requests w"
    using createSyncLog_result(1,2) [OF completed(1)] by simp_all
  have "requests w' = requests w0 \<and> contentHashOf (case_state w') = contentHashOf (case_state w0)"
    by (rule syncBody_noop [OF completed(2)]) (simp_all add: c assms(2,3))
  then show ?thesis by (simp add: c)
next
  case (fatal syncId w0 err w1 r2)
  have c: "case_state w0 = case_state w" "requests w0 = requests w"
    using createSyncLog_result(1,2) [OF fatal(1)] by simp_all
  have "requests w1 = requests w0 \<and> contentHashOf (case_state w1) = contentHashOf (case_state w0)"
    by (rule syncBody_noop [OF fatal(2)]) (simp_all add: c assms(2,3))
  then show ?thesis
    using completeSyncLog_frame(1,2) [OF fatal(3)] by (simp add: c)
qed

section \<open>The parser, the field comparison and the frame of the upsert\<close>

lemma truthy_simps [simp]: "truthy None = False" "truthy (Some s) = (s \<noteq> [])"
  by (simp_all add: truthy_def)

lemma splitOn_nonempty: "splitOn sep s \<noteq> []"
  by (induction s) (auto split: list.splits)

lemma normalizeDate_nonempty: "normalizeDate d \<noteq> Some []"
  by (auto simp: normalizeDate_def split: option.splits list.splits if_splits)

lemma isValidCaseNo_iff:
  "isValidCaseNo caseId \<longleftrightarrow>
     (\<exists>l d1 d2 suffix. caseId = CHR ''C'' # l # d1 # d2 # CHR ''-'' # suffix \<and>
        isUpperAZ l \<and> isDigit d1 \<and> isDigit d2 \<and> suffix \<noteq> [] \<and> list_all isDigit suffix)"
  by (cases caseId rule: isValidCaseNo.cases) auto

lemma parseRow_Some: "parseRow row = Some r \<Longrightarrow> isValidCaseNo (caseNo r)"
  by (auto simp: parseRow_def Let_def split: if_splits)

lemma parseRow_None: "parseRow row = None \<longleftrightarrow> \<not> isValidCaseNo (trimmedColumn row ''CASE_NO'')"
  by (auto simp: parseRow_def Let_def)

lemma parseRows_eq:
  "parseRows rows records skipped =
     (records @ List.map_filter parseRow rows,
      skipped + length (filter (\<lambda>row. \<not> isValidCaseNo (trimmedColumn row ''CASE_NO'')) rows))"
proof (induction rows arbitrary: records skipped)
  case Nil
  then show ?case by (simp add: List.map_filter_simps)
next
  case (Cons row rows)
  show ?case
  proof (cases "parseRow row")
    case None
    then show ?thesis
      using parseRow_None [of row] by (simp add: Cons.IH List.map_filter_simps)
  next
    case (Some r)
    then show ?thesis
      using parseRow_None [of row] by (simp add: Cons.IH List.map_filter_simps)
  qed
qed

lemma length_map_filter:
  "length (List.map_filter f xs) + length (filter (\<lambda>x. f x = None) xs) = length xs"
  by (induction xs) (auto simp: List.map_filter_simps split: option.splits)

lemma processCasesSync_keys:
  assumes "processCasesSync env records w = (res, w')"
  shows "case_no ` set (case_state w') \<subseteq> case_no ` set (case_state w) \<union> caseNo ` set records"
  using assms
proof (cases rule: processCasesSync_cases)
  case (nolog e)
  then show ?thesis using createSyncLog_result(1) [OF nolog(1)] by simp
next
  case (completed syncId w0 u)
  then show ?thesis
    using createSyncLog_result(1) [OF completed(1)] syncBody_frame [OF completed(2)] by simp
next
  case (fatal syncId w0 err w1 r2)
  then show ?thesis
    using createSyncLog_result(1) [OF fatal(1)] syncBody_frame [OF fatal(2)]
      completeSyncLog_frame(1) [OF fatal(3)] by simp
qed

lemma ex_parse: "parseCodeEnforcementCasesCsv exampleRows =
  ([\<lparr> caseNo = ''CE24-0001'', caseOpened = Some ''2025-01-01'', caseClosed = None,
       caseType = [], caseSubType = [], siteAddress = [],
       rawData = [(''CASE_NO'', ''CE24-0001''), (''STARTED'', ''1/1/2025 12:00:00 AM''), (''CLOSED'', '''')] \<rparr>], 1)"
  by (simp add: parseCodeEnforcementCasesCsv_def parseRow_def exampleRows_def trimmedColumn_def
      column_def trim_def isWhiteSpace_def isUpperAZ_def isDigit_def normalizeDate_def
      padStart2_def buildAddress_def Let_def)

lemma orNull_None_iff: "orNull v = None \<longleftrightarrow> \<not> truthy v"
  by (cases v) (auto simp: orNull_def)

lemma truthy_orNull [simp]: "truthy (orNull v) = truthy v"
  by (cases v) (auto simp: orNull_def)

lemma truthy_wantOpened: "truthy (wantOpened change) \<longleftrightarrow> wantOpened change \<noteq> None"
  by (simp add: wantOpened_def orNull_None_iff)

lemma updateFields_None_iff:
  "updateFields change ticket = None \<longleftrightarrow>
     currentOpened ticket = wantOpened change \<and> currentClosed ticket = wantClosed change \<and>
     currentStatus ticket = Some (wantStatus change)"
  by (auto simp: updateFields_def Let_def)

lemma updateFields_Some:
  assumes "updateFields change ticket = Some payload"
  shows "cc_case_opened payload =
           (if currentOpened ticket \<noteq> wantOpened change \<and> wantOpened change \<noteq> None
            then wantOpened change else None) \<and>
         case_close_date payload =
           (if currentClosed ticket \<noteq> wantClosed change then Some (wantClosed change) else None) \<and>
         last_case_status payload =
           (if currentStatus ticket \<noteq> Some (wantStatus change) then Some (wantStatus change) else None) \<and>
         cc_case_number payload = None"
  using assms
  by (auto simp: updateFields_def Let_def noFields_def truthy_wantOpened split: if_splits)

lemma processChange_after_match:
  assumes "caseUpdatesEnabled env"
    and "findTicket env change w = (Inr (Some ticket), w1)"
    and "processChange env change w = (res, w2)"
  shows "requests w2 = requests w1 @
           (case updateFields change ticket of None \<Rightarrow> []
            | Some payload \<Rightarrow> [PostCustomFields (ticket_id ticket) payload])"
proof (cases "updateFields change ticket")
  case None
  then have "andThen (updateCaseThreefoldId env (change_caseNo change) (ticket_id ticket))
                   (\<lambda>u. succeed NoChanges) w1 = (res, w2)"
    using assms by (simp add: processChange_def andThen_def)
  then show ?thesis
    using None by (auto elim!: andThen_cases dest!: updateCaseThreefoldId_frame)
next
  case (Some payload)
  then have "andThen (updateTicketCustomFields env (ticket_id ticket) payload) (\<lambda>u.
                 andThen (updateCaseThreefoldId env (change_caseNo change) (ticket_id ticket))
                   (\<lambda>u. succeed Updated)) w1 = (res, w2)"
    using assms by (simp add: processChange_def andThen_def)
  then show ?thesis
    using Some
    by (auto elim!: andThen_cases dest!: updateCaseThreefoldId_frame updateTicketCustomFields_world)
qed

lemma sameOutside_iff:
  "sameOutsideUpsertColumns old new \<longleftrightarrow>
     case_no new = case_no old \<and> threefold_ticket_id new = threefold_ticket_id old \<and>
     created_at new = created_at old \<and> case_state_row.more new = case_state_row.more old"
  unfolding sameOutsideUpsertColumns_def
  by (cases old, cases new) auto

lemma sameOutside_refl: "sameOutsideUpsertColumns row row"
  by (simp add: sameOutside_iff)

lemma sameOutside_trans:
  "sameOutsideUpsertColumns a b \<Longrightarrow> sameOutsideUpsertColumns b c \<Longrightarrow> sameOutsideUpsertColumns a c"
  by (simp add: sameOutside_iff)

lemma sameOutside_doUpdateSet: "sameOutsideUpsertColumns row (doUpdateSet now e row)"
  by (simp add: sameOutside_iff doUpdateSet_def)

lemma upsertFrame_refl: "upsertFrame t t"
  by (auto simp: upsertFrame_def sameOutside_refl split: option.splits)

lemma upsertFrame_SomeD:
  assumes "upsertFrame t t'" "rowOf t k = Some old"
  shows "\<exists>new. rowOf t' k = Some new \<and> sameOutsideUpsertColumns old new"
proof -
  have "case rowOf t k of
            Some old \<Rightarrow> (\<exists>new. rowOf t' k = Some new \<and> sameOutsideUpsertColumns old new)
          | None \<Rightarrow> (\<forall>new. rowOf t' k = Some new \<longrightarrow> threefold_ticket_id new = None)"
    using assms(1) unfolding upsertFrame_def by (rule spec)
  then show ?thesis by (simp add: assms(2))
qed

lemma upsertFrame_NoneD:
  assumes "upsertFrame t t'" "rowOf t k = None" "rowOf t' k = Some new"
  shows "threefold_ticket_id new = None"
proof -
  have "case rowOf t k of
            Some old \<Rightarrow> (\<exists>new. rowOf t' k = Some new \<and> sameOutsideUpsertColumns old new)
          | None \<Rightarrow> (\<forall>new. rowOf t' k = Some new \<longrightarrow> threefold_ticket_id new = None)"
    using assms(1) unfolding upsertFrame_def by (rule spec)
  then show ?thesis by (simp add: assms(2,3))
qed

lemma upsertFrame_trans:
  assumes "upsertFrame a b" "upsertFrame b c"
  shows "upsertFrame a c"
  unfolding upsertFrame_def
proof
  fix k
  show "case rowOf a k of
            Some old \<Rightarrow> (\<exists>new. rowOf c k = Some new \<and> sameOutsideUpsertColumns old new)
          | None \<Rightarrow> (\<forall>new. rowOf c k = Some new \<longrightarrow> threefold_ticket_id new = None)"
  proof (cases "rowOf a k")
    case None
    show ?thesis
    proof (cases "rowOf b k")
      case bNone: None
      then show ?thesis
        using None upsertFrame_NoneD [OF assms(2) bNone] by simp
    next
      case (Some mid)
      then have m: "threefold_ticket_id mid = None"
        using upsertFrame_NoneD [OF assms(1) None] by simp
      obtain new where "rowOf c k = Some new" "sameOutsideUpsertColumns mid new"
        using upsertFrame_SomeD [OF assms(2) Some] by blast
      then show ?thesis
        using None m by (simp add: sameOutside_iff)
    qed
  next
    case (Some old)
    then obtain mid where mid: "rowOf b k = Some mid" "sameOutsideUpsertColumns old mid"
      using upsertFrame_SomeD [OF assms(1)] by blast
    then obtain new where "rowOf c k = Some new" "sameOutsideUpsertColumns mid new"
      using upsertFrame_SomeD [OF assms(2)] by blast
    then show ?thesis
      using Some mid(2) sameOutside_trans by auto
  qed
qed

lemma upsertFrame_insertOnConflict:
  "upsertFrame t (insertOnConflict now (excludedRow h now r) t)"
  by (auto simp: upsertFrame_def rowOf_insertOnConflict sameOutside_refl sameOutside_doUpdateSet
      split: option.splits)

lemma upsertFrame_fold:
  "upsertFrame t (fold (\<lambda>record. insertOnConflict now (excludedRow h now record)) batch t)"
proof (induction batch arbitrary: t)
  case Nil
  then show ?case by (simp add: upsertFrame_refl)
next
  case (Cons r batch)
  show ?case
    using upsertFrame_trans [OF upsertFrame_insertOnConflict Cons.IH] by simp
qed

lemma upsertBatch_upsertFrame:
  assumes "upsertBatch env batch w = (res, w')"
  shows "upsertFrame (case_state w) (case_state w')"
  using upsertBatch_table [OF assms] by (auto simp: upsertFrame_refl upsertFrame_fold)

lemma upsertBatches_upsertFrame:
  assumes "upsertBatches env remaining w = (res, w')"
  shows "upsertFrame (case_state w) (case_state w')"
  by (rule upsertBatches_rel [OF assms, where R = "\<lambda>w w'. upsertFrame (case_state w) (case_state w')"])
    (auto intro: upsertFrame_refl upsertFrame_trans upsertBatch_upsertFrame)

lemma upsertCaseState_upsertFrame:
  assumes "upsertCaseState env records w = (res, w')"
  shows "upsertFrame (case_state w) (case_state w')"
  using assms
proof (cases rule: upsertCaseState_cases)
  case batches
  then show ?thesis using upsertBatches_upsertFrame [OF batches(3)] by simp
qed (simp_all add: upsertFrame_refl)

lemma changesOf_records:
  "map change_record (changesOf h cs r) = (if changesOf h cs r \<noteq> [] then [r] else [])"
  by (simp add: changesOf_def Let_def split: option.splits)

lemma changesOf_caseNo:
  "c \<in> set (changesOf h cs r) \<Longrightarrow> change_caseNo c = caseNo (change_record c)"
  by (auto simp: changesOf_def Let_def split: option.splits if_splits)

lemma changes_records:
  "map change_record (concat (map (changesOf h cs) rs)) = filter (\<lambda>r. changesOf h cs r \<noteq> []) rs"
  by (induction rs) (simp_all add: changesOf_records)

lemma changes_caseNos:
  "map change_caseNo (concat (map (changesOf h cs) rs)) =
   map caseNo (filter (\<lambda>r. changesOf h cs r \<noteq> []) rs)"
proof -
  have "map change_caseNo (concat (map (changesOf h cs) rs)) =
        map (\<lambda>c. caseNo (change_record c)) (concat (map (changesOf h cs) rs))"
    by (rule map_cong) (auto dest: changesOf_caseNo)
  also have "\<dots> = map caseNo (map change_record (concat (map (changesOf h cs) rs)))"
    by simp
  finally show ?thesis by (simp only: changes_records)
qed

lemma diffCases_changes:
  assumes "diffCases env records w = (Inr changes, w')"
  shows "distinct (map change_caseNo changes)"
    and "\<forall>c \<in> set changes. find (\<lambda>x. caseNo x = change_caseNo c) (rev records) = Some (change_record c)"
proof -
  let ?cs = "fold (\<lambda>row m. Map_set (case_no row) row m)
              (selectCaseStates (map caseNo (uniqueRecords records)) (case_state w)) []"
  have ch: "changes = concat (map (changesOf (sha256hex env) ?cs) (uniqueRecords records))"
    using diffCases_Inr [OF assms] .
  show "distinct (map change_caseNo changes)"
    unfolding ch changes_caseNos by (rule distinct_map_filter) (rule uniqueRecords_distinct)
  show "\<forall>c \<in> set changes. find (\<lambda>x. caseNo x = change_caseNo c) (rev records) = Some (change_record c)"
  proof
    fix c assume c: "c \<in> set changes"
    then have "change_record c \<in> set (map change_record changes)"
      by simp
    then have "change_record c \<in> set (uniqueRecords records)"
      unfolding ch changes_records by simp
    then have "find (\<lambda>x. caseNo x = caseNo (change_record c)) (rev records) = Some (change_record c)"
      by (simp add: uniqueRecords_last)
    moreover have "change_caseNo c = caseNo (change_record c)"
      using c unfolding ch by (auto dest: changesOf_caseNo)
    ultimately show "find (\<lambda>x. caseNo x = change_caseNo c) (rev records) = Some (change_record c)"
      by simp
  qed
qed

lemma diffCases_uniqueRecords: "diffCases env (uniqueRecords records) = diffCases env records"
  by (simp add: diffCases_def uniqueRecords_idem)

lemma one_row_per_key:
  "distinct (map f xs) \<Longrightarrow> k \<in> f ` set xs \<Longrightarrow> length (filter (\<lambda>x. f x = k) xs) = 1"
proof (induction xs)
  case Nil
  then show ?case by simp
next
  case (Cons x xs)
  show ?case
  proof (cases "f x = k")
    case True
    have "f x \<notin> f ` set xs"
      using Cons.prems(1) by simp
    then have "\<forall>y \<in> set xs. f y \<noteq> k"
      using True by (metis imageI)
    then have "filter (\<lambda>x. f x = k) xs = []"
      by (simp add: filter_empty_conv)
    then show ?thesis using True by simp
  next
    case False
    then show ?thesis using Cons by auto
  qed
qed

section \<open>The run record, the search flag and the ticket link\<close>



lemma findTicketByCaseNumber_disabled:
  "\<not> searchApiAvailable w \<Longrightarrow> findTicketByCaseNumber env k w = (Inr None, w)"
  by (simp add: findTicketByCaseNumber_def)

lemma startsWith_append: "startsWith (p @ s) p"
  by (induction p) auto

lemma includesStr_append: "includesStr (a @ p @ b) p"
proof (induction a)
  case Nil
  show ?case
  proof (cases "p @ b")
    case Nil
    then show ?thesis by simp
  next
    case (Cons c s)
    then show ?thesis
      using startsWith_append [of p b] by simp
  qed
next
  case (Cons c a)
  then show ?case by simp
qed

lemma status_405_disables_search:
  assumes "searchApiAvailable w"
    and "remoteServer env (requests w) (SearchTickets (noFields\<lparr>cc_case_number := Some k\<rparr>) 1 0 True) =
           HttpResponse 405 body tickets"
  shows "findTicketByCaseNumber env k w =
           (Inr None,
            w\<lparr>requests := requests w @ [SearchTickets (noFields\<lparr>cc_case_number := Some k\<rparr>) 1 0 True],
              searchApiAvailable := False\<rparr>)"
proof -
  have "stringOfNat 405 = ''405''"
    by (simp add: stringOfNat.simps digitChar_def)
  then have "includesStr (''Failed to search tickets: '' @ stringOfNat 405 @ '' '' @ body) ''405''"
    using includesStr_append [of "''Failed to search tickets: ''" "''405''" "'' '' @ body"] by simp
  then show ?thesis
    using assms
    by (simp add: findTicketByCaseNumber_def searchTicketsByCustomField_def fetch_def ok_def)
qed

lemma search_flag_stays_cleared:
  assumes "processCasesSync env records w = (res, w')" "\<not> searchApiAvailable w"
  shows "\<not> searchApiAvailable w'"
proof -
  have body: "\<not> searchApiAvailable w1"
    if "syncBody env syncId records w0 = (r, w1)" "\<not> searchApiAvailable w0" for syncId w0 r w1
  proof -
    from that(1) show ?thesis
      unfolding syncBody_def
    proof (cases rule: andThen_cases)
      case (throw e)
      then show ?thesis using diffCases_frame(5) [OF throw(1)] that(2) by simp
    next
      case (continue changes wd)
      have d: "\<not> searchApiAvailable wd"
        using diffCases_frame(5) [OF continue(1)] that(2) by simp
      obtain c w2 where loop: "processChanges env changes
                \<lparr> processed = 0, updated = 0, notFound = 0, noChanges = 0, errors = 0 \<rparr> wd = (c, w2)"
        by (cases "processChanges env changes
                \<lparr> processed = 0, updated = 0, notFound = 0, noChanges = 0, errors = 0 \<rparr> wd")
      have p: "\<not> searchApiAvailable w2"
        using processChanges_frame [OF loop] d by blast
      obtain ch er w3 where tail: "andThen (upsertCaseState env records) (\<lambda>u.
               completeSyncLog env syncId (length records) ch er None) w3 = (r, w1)"
        and w3: "\<not> searchApiAvailable w3"
        using continue(2) loop d p by (cases "changes = []") auto
      from tail show ?thesis
      proof (cases rule: andThen_cases)
        case (throw e)
        then show ?thesis using upsertCaseState_frame [OF throw(1)] w3 by simp
      next
        case (continue a wb)
        then show ?thesis
          using upsertCaseState_frame [OF continue(1)] completeSyncLog_frame(3) [OF continue(2)] w3
          by simp
      qed
    qed
  qed
  from assms(1) show ?thesis
  proof (cases rule: processCasesSync_cases)
    case (nolog e)
    then show ?thesis using createSyncLog_result(3) [OF nolog(1)] assms(2) by simp
  next
    case (completed syncId w0 u)
    have "\<not> searchApiAvailable w0"
      using createSyncLog_result(3) [OF completed(1)] assms(2) by simp
    then show ?thesis by (rule body [OF completed(2)])
  next
    case (fatal syncId w0 err w1 r2)
    have "\<not> searchApiAvailable w0"
      using createSyncLog_result(3) [OF fatal(1)] assms(2) by simp
    then have "\<not> searchApiAvailable w1" by (rule body [OF fatal(2)])
    then show ?thesis using completeSyncLog_frame(3) [OF fatal(3)] by simp
  qed
qed

lemma seen_case_link_cached:
  assumes "generateCaseHash h exampleClosedRecord \<noteq> generateCaseHash h exampleRecord"
  shows "fst (processCasesSync (exampleEnv h) [exampleClosedRecord] (unlinkedWorld h)) = Inr () \<and>
    map threefold_ticket_id
     (case_state (snd (processCasesSync (exampleEnv h) [exampleClosedRecord] (unlinkedWorld h)))) = [Some 42]"
  using assms by (simp add: run_defs example_defs unlinkedWorld_def)

section \<open>The normalisation written out and the counters of a run\<close>

lemma orNull_written_out:
  "orNull v = (case v of None \<Rightarrow> None | Some s \<Rightarrow> if s = [] then None else Some s)"
  by (simp add: orNull_def truthy_def split: option.splits)

lemma wantStatus_written_out:
  "wantStatus change =
     (if orNull (caseOpened (change_record change)) \<noteq> None \<and>
         orNull (caseClosed (change_record change)) \<noteq> None
      then ''closed'' else ''open'')"
  by (simp add: wantStatus_def determineCaseStatus_def orNull_None_iff)



section \<open>The claims\<close>

subsection \<open>C1: a second run on the same batch\<close>

text \<open>
  Claim C1. Let a run on a batch complete (return without throwing) from a table whose
  case numbers are distinct, as the primary key guarantees. Then a second run on the same
  batch, in the same process or in a later one with the same digest, whatever its own
  outcome, sends no request to the remote store (so no update call) and leaves the stored
  \<^verbatim>\<open>content_hash\<close> of every case as it was; every record of the batch has a stored
  fingerprint, the one stored for a case is the recomputed hash of its last occurrence,
  and the second \<^verbatim>\<open>diffCases\<close> emits no change.
\<close>

theorem second_run_changes_nothing:
  assumes "distinct (map case_no (case_state w0))"
    and "processCasesSync env records w0 = (Inr (), w1)"
    and "sha256hex env2 = sha256hex env"
    and "processCasesSync env2 records w1 = (res, w2)"
  shows "requests w2 = requests w1 \<and>
         contentHashOf (case_state w2) = contentHashOf (case_state w1) \<and>
         (\<forall>r \<in> set records. contentHashOf (case_state w1) (caseNo r) \<noteq> None) \<and>
         (\<forall>r \<in> set (uniqueRecords records).
            contentHashOf (case_state w1) (caseNo r) = Some (generateCaseHash (sha256hex env2) r)) \<and>
         (\<forall>w changes w'. case_state w = case_state w1 \<longrightarrow>
            diffCases env2 records w = (Inr changes, w') \<longrightarrow> changes = [])"
proof -
  note base1 = run_establishes_baseline [OF assms(2,1)]
  have base: "distinct (map case_no (case_state w1))"
    "\<forall>r \<in> set (uniqueRecords records).
       contentHashOf (case_state w1) (caseNo r) = Some (generateCaseHash (sha256hex env2) r)"
    using base1 by (simp_all add: assms(3))
  have noop: "requests w2 = requests w1 \<and> contentHashOf (case_state w2) = contentHashOf (case_state w1)"
    using run_noop [OF assms(4) base] .
  have present: "contentHashOf (case_state w1) (caseNo r) \<noteq> None" if "r \<in> set records" for r
  proof -
    have "caseNo r \<in> caseNo ` set (uniqueRecords records)"
      using that by (simp add: uniqueRecords_keys)
    then obtain r' where r': "r' \<in> set (uniqueRecords records)" "caseNo r = caseNo r'"
      by auto
    have "contentHashOf (case_state w1) (caseNo r') = Some (generateCaseHash (sha256hex env2) r')"
      using base(2) r'(1) by simp
    then show ?thesis by (simp add: r'(2))
  qed
  have "changes = []" if "case_state w = case_state w1" "diffCases env2 records w = (Inr changes, w')"
    for w changes w'
    by (rule diffCases_nochange [OF that(2)]) (simp_all add: that(1) base)
  then show ?thesis using noop present base(2) by blast
qed

theorem second_run_changes_nothing_witness:
  "\<forall>h. distinct (map case_no (case_state freshWorld)) \<and>
       fst (processCasesSync (exampleEnv h) [exampleRecord] freshWorld) = Inr () \<and>
       requests (snd (processCasesSync (exampleEnv h) [exampleRecord]
                   (snd (processCasesSync (exampleEnv h) [exampleRecord] freshWorld)))) =
       requests (snd (processCasesSync (exampleEnv h) [exampleRecord] freshWorld)) \<and>
       contentHashOf (case_state (snd (processCasesSync (exampleEnv h) [exampleRecord]
                   (snd (processCasesSync (exampleEnv h) [exampleRecord] freshWorld))))) =
       contentHashOf (case_state (snd (processCasesSync (exampleEnv h) [exampleRecord] freshWorld)))"
proof
  fix h
  let ?run1 = "processCasesSync (exampleEnv h) [exampleRecord] freshWorld"
  let ?run2 = "processCasesSync (exampleEnv h) [exampleRecord] (snd ?run1)"
  have d: "distinct (map case_no (case_state freshWorld))"
    by (simp add: freshWorld_def)
  have ok1: "fst ?run1 = Inr ()"
    by (rule example_run_completes)
  then have r1: "?run1 = (Inr (), snd ?run1)"
    by (simp add: prod_eq_iff)
  have r2: "?run2 = (fst ?run2, snd ?run2)"
    by simp
  show "distinct (map case_no (case_state freshWorld)) \<and> fst ?run1 = Inr () \<and>
        requests (snd ?run2) = requests (snd ?run1) \<and>
        contentHashOf (case_state (snd ?run2)) = contentHashOf (case_state (snd ?run1))"
    using second_run_changes_nothing [OF d r1 refl r2] d ok1 by blast
qed

subsection \<open>C2: the update payload\<close>

text \<open>
  Claim C2. With updates enabled, let the search for the ticket of a change return a
  ticket. Normalise a value by reading null, undefined and the empty string as null; the
  remote values are the ticket's \<^verbatim>\<open>cc_case_opened\<close>, \<^verbatim>\<open>case_close_date\<close> and
  \<^verbatim>\<open>last_case_status\<close>, the desired ones the record's \<^verbatim>\<open>caseOpened\<close> and \<^verbatim>\<open>caseClosed\<close> and
  the status derived from them. No payload is built exactly when the three normalised
  remote values equal the desired ones. A payload that is built holds \<^verbatim>\<open>cc_case_opened\<close>
  exactly when the opened dates differ and the desired one is not null,
  \<^verbatim>\<open>case_close_date\<close> exactly when the closed dates differ (with the desired value, null
  included), \<^verbatim>\<open>last_case_status\<close> exactly when the status differs, and nothing else. The
  search sends no write, and after it the change sends one write carrying that payload
  when there is one and no request at all when there is none.
\<close>

theorem reconciliation_payload:
  assumes "caseUpdatesEnabled env"
    and "findTicket env change w = (Inr (Some ticket), w1)"
    and "processChange env change w = (res, w2)"
  shows "(let norm = (\<lambda>v. case v of None \<Rightarrow> None | Some s \<Rightarrow> if s = [] then None else Some s);
              remoteOpened = norm (cc_case_opened (customFields ticket));
              remoteClosed = (case case_close_date (customFields ticket) of
                                None \<Rightarrow> None | Some v \<Rightarrow> norm v);
              remoteStatus = norm (last_case_status (customFields ticket));
              desiredOpened = norm (caseOpened (change_record change));
              desiredClosed = norm (caseClosed (change_record change));
              desiredStatus = (if desiredOpened \<noteq> None \<and> desiredClosed \<noteq> None
                               then ''closed'' else ''open'')
          in (updateFields change ticket = None \<longleftrightarrow>
                remoteOpened = desiredOpened \<and> remoteClosed = desiredClosed \<and>
                remoteStatus = Some desiredStatus) \<and>
             (\<forall>payload. updateFields change ticket = Some payload \<longrightarrow>
                cc_case_opened payload =
                  (if remoteOpened \<noteq> desiredOpened \<and> desiredOpened \<noteq> None
                   then desiredOpened else None) \<and>
                case_close_date payload =
                  (if remoteClosed \<noteq> desiredClosed then Some desiredClosed else None) \<and>
                last_case_status payload =
                  (if remoteStatus \<noteq> Some desiredStatus then Some desiredStatus else None) \<and>
                cc_case_number payload = None)) \<and>
         filter isPost (requests w1) = filter isPost (requests w) \<and>
         requests w2 = requests w1 @
           (case updateFields change ticket of None \<Rightarrow> []
            | Some payload \<Rightarrow> [PostCustomFields (ticket_id ticket) payload])"
proof -
  have cur: "currentOpened ticket =
               (case cc_case_opened (customFields ticket) of None \<Rightarrow> None
                | Some s \<Rightarrow> if s = [] then None else Some s)"
    "currentClosed ticket =
       (case case_close_date (customFields ticket) of None \<Rightarrow> None
        | Some v \<Rightarrow> (case v of None \<Rightarrow> None | Some s \<Rightarrow> if s = [] then None else Some s))"
    "currentStatus ticket =
       (case last_case_status (customFields ticket) of None \<Rightarrow> None
        | Some s \<Rightarrow> if s = [] then None else Some s)"
    by (simp_all add: currentOpened_def currentClosed_def currentStatus_def orNull_written_out
        split: option.splits)
  have want: "wantOpened change =
                (case caseOpened (change_record change) of None \<Rightarrow> None
                 | Some s \<Rightarrow> if s = [] then None else Some s)"
    "wantClosed change =
       (case caseClosed (change_record change) of None \<Rightarrow> None
        | Some s \<Rightarrow> if s = [] then None else Some s)"
    by (simp_all add: wantOpened_def wantClosed_def orNull_written_out)
  have st: "wantStatus change =
       (if (case caseOpened (change_record change) of None \<Rightarrow> None
            | Some s \<Rightarrow> if s = [] then None else Some s) \<noteq> None \<and>
           (case caseClosed (change_record change) of None \<Rightarrow> None
            | Some s \<Rightarrow> if s = [] then None else Some s) \<noteq> None
        then ''closed'' else ''open'')"
    by (simp only: wantStatus_written_out orNull_written_out)
  note none = updateFields_None_iff [of change ticket, unfolded cur want st]
  note some = updateFields_Some [of change ticket, unfolded cur want st]
  have reqs: "filter isPost (requests w1) = filter isPost (requests w)"
    using findTicket_frame [OF assms(2)] by blast
  note sent = processChange_after_match [OF assms]
  show ?thesis
    unfolding Let_def using none some reqs sent by blast
qed

theorem reconciliation_payload_witness:
  "\<forall>h. caseUpdatesEnabled (exampleEnv h) \<and>
       fst (findTicket (exampleEnv h) (exampleChange h) freshWorld) = Inr (Some exampleTicket) \<and>
       updateFields (exampleChange h) exampleTicket =
         Some (noFields\<lparr>case_close_date := Some (Some ''2025-02-01''),
                         last_case_status := Some ''closed''\<rparr>) \<and>
       requests (snd (processChange (exampleEnv h) (exampleChange h) freshWorld)) =
         [GetTicket 42,
          PostCustomFields 42 (noFields\<lparr>case_close_date := Some (Some ''2025-02-01''),
                                          last_case_status := Some ''closed''\<rparr>)]"
proof
  fix h
  let ?env = "exampleEnv h" and ?ch = "exampleChange h"
  let ?payload = "noFields\<lparr>case_close_date := Some (Some ''2025-02-01''),
                         last_case_status := Some ''closed''\<rparr>"
  have en: "caseUpdatesEnabled ?env"
    by (simp add: exampleEnv_def)
  have found: "fst (findTicket ?env ?ch freshWorld) = Inr (Some exampleTicket)"
    and sent: "requests (snd (findTicket ?env ?ch freshWorld)) = [GetTicket 42]"
    by (simp_all add: run_defs example_defs)
  have ft: "findTicket ?env ?ch freshWorld = (Inr (Some exampleTicket), snd (findTicket ?env ?ch freshWorld))"
    using found by (simp add: prod_eq_iff)
  have pc: "processChange ?env ?ch freshWorld =
              (fst (processChange ?env ?ch freshWorld), snd (processChange ?env ?ch freshWorld))"
    by simp
  have raw: "cc_case_opened (customFields exampleTicket) = Some ''2025-01-01''"
    "case_close_date (customFields exampleTicket) = None"
    "last_case_status (customFields exampleTicket) = Some ''open''"
    "caseOpened (change_record ?ch) = Some ''2025-01-01''"
    "caseClosed (change_record ?ch) = Some ''2025-02-01''"
    by (simp_all add: example_defs)
  note t = reconciliation_payload [OF en ft pc, unfolded Let_def raw]
  have notNone: "updateFields ?ch exampleTicket \<noteq> None"
    using t by simp
  then obtain payload where p: "updateFields ?ch exampleTicket = Some payload"
    by auto
  then have "cc_case_opened payload = None \<and> case_close_date payload = Some (Some ''2025-02-01'') \<and>
      last_case_status payload = Some ''closed'' \<and> cc_case_number payload = None"
    using t by simp
  then have "payload = ?payload"
    by (simp add: noFields_def)
  then have upd: "updateFields ?ch exampleTicket = Some ?payload"
    using p by simp
  have "requests (snd (processChange ?env ?ch freshWorld)) =
          requests (snd (findTicket ?env ?ch freshWorld)) @
            (case updateFields ?ch exampleTicket of None \<Rightarrow> []
             | Some payload \<Rightarrow> [PostCustomFields (ticket_id exampleTicket) payload])"
    using t by blast
  moreover have "ticket_id exampleTicket = 42"
    by (simp add: exampleTicket_def)
  ultimately have "requests (snd (processChange ?env ?ch freshWorld)) =
          [GetTicket 42, PostCustomFields 42 ?payload]"
    by (simp add: sent upd)
  then show "caseUpdatesEnabled ?env \<and> fst (findTicket ?env ?ch freshWorld) = Inr (Some exampleTicket) \<and>
       updateFields ?ch exampleTicket = Some ?payload \<and>
       requests (snd (processChange ?env ?ch freshWorld)) = [GetTicket 42, PostCustomFields 42 ?payload]"
    using en found upd by blast
qed

subsection \<open>C3: validation of case numbers\<close>

text \<open>
  Claim C3 as worded (true if and only if two letters, two digits, a hyphen and a non-empty
  numeric suffix) fails on the code:
  \<^verbatim>\<open>AB12-345\<close> has that shape and is rejected.
\<close>

theorem case_number_two_letters_counterexample: "\<not> (isValidCaseNo ''AB12-345'' \<longleftrightarrow> specCaseIdShape ''AB12-345'')"
  by (simp add: isUpperAZ_def isDigit_def isLetter_def)

text \<open>
  Claim C3, amended. The validator accepts exactly the letter C, one capital letter A to Z,
  two digits, a hyphen and a non-empty run of digits. The parser keeps exactly the rows
  whose trimmed \<^verbatim>\<open>CASE_NO\<close> passes, in order, and counts the others in \<^verbatim>\<open>skipped\<close>; and a
  run on the parsed records leaves no row in \<^verbatim>\<open>case_state\<close> with a case number that
  fails the validation, unless a row of that case number was there before the run.
\<close>

theorem case_number_validation:
  assumes "parseCodeEnforcementCasesCsv rows = (records, skipped)"
    and "processCasesSync env records w = (res, w')"
  shows "(isValidCaseNo caseId \<longleftrightarrow>
           (\<exists>l d1 d2 suffix. caseId = CHR ''C'' # l # d1 # d2 # CHR ''-'' # suffix \<and>
              isUpperAZ l \<and> isDigit d1 \<and> isDigit d2 \<and> suffix \<noteq> [] \<and> list_all isDigit suffix)) \<and>
         records = List.map_filter parseRow rows \<and>
         (\<forall>r \<in> set records. isValidCaseNo (caseNo r)) \<and>
         skipped = length (filter (\<lambda>row. \<not> isValidCaseNo (trimmedColumn row ''CASE_NO'')) rows) \<and>
         length records + skipped = length rows \<and>
         (\<forall>row \<in> set (case_state w').
            isValidCaseNo (case_no row) \<or> case_no row \<in> case_no ` set (case_state w))"
proof -
  have recs: "records = List.map_filter parseRow rows"
    and sk: "skipped = length (filter (\<lambda>row. \<not> isValidCaseNo (trimmedColumn row ''CASE_NO'')) rows)"
    using assms(1) by (simp_all add: parseCodeEnforcementCasesCsv_def parseRows_eq)
  have valid: "\<forall>r \<in> set records. isValidCaseNo (caseNo r)"
    unfolding recs by (auto simp: List.map_filter_def dest: parseRow_Some)
  have len: "length records + skipped = length rows"
    using length_map_filter [of parseRow rows] by (simp add: recs sk parseRow_None)
  have "isValidCaseNo (case_no row) \<or> case_no row \<in> case_no ` set (case_state w)"
    if "row \<in> set (case_state w')" for row
  proof -
    have "case_no row \<in> case_no ` set (case_state w) \<union> caseNo ` set records"
      using processCasesSync_keys [OF assms(2)] that by blast
    then show ?thesis using valid by auto
  qed
  then show ?thesis
    using isValidCaseNo_iff [of caseId] recs sk valid len by blast
qed

theorem case_number_validation_witness:
  "\<forall>h. snd (parseCodeEnforcementCasesCsv exampleRows) = 1 \<and>
       map caseNo (fst (parseCodeEnforcementCasesCsv exampleRows)) = [''CE24-0001''] \<and>
       list_all (\<lambda>row. isValidCaseNo (case_no row))
         (case_state (snd (processCasesSync (exampleEnv h)
            (fst (parseCodeEnforcementCasesCsv exampleRows)) freshWorld)))"
proof
  fix h
  let ?p = "parseCodeEnforcementCasesCsv exampleRows"
  let ?run = "processCasesSync (exampleEnv h) (fst ?p) freshWorld"
  have p: "?p = (fst ?p, snd ?p)" and r: "?run = (fst ?run, snd ?run)"
    by simp_all
  have ev: "snd ?p = 1" "map caseNo (fst ?p) = [''CE24-0001'']"
    by (simp_all add: ex_parse)
  have "\<forall>row \<in> set (case_state (snd ?run)).
          isValidCaseNo (case_no row) \<or> case_no row \<in> case_no ` set (case_state freshWorld)"
    using case_number_validation [OF p r] by blast
  then have "list_all (\<lambda>row. isValidCaseNo (case_no row)) (case_state (snd ?run))"
    by (simp add: list_all_iff freshWorld_def)
  then show "snd ?p = 1 \<and> map caseNo (fst ?p) = [''CE24-0001''] \<and>
       list_all (\<lambda>row. isValidCaseNo (case_no row)) (case_state (snd ?run))"
    using ev by blast
qed

subsection \<open>C4: duplicates inside a batch\<close>

text \<open>
  Claim C4. \<^verbatim>\<open>uniqueRecords\<close>, computed first by \<^verbatim>\<open>diffCases\<close> and by
  \<^verbatim>\<open>upsertCaseState\<close>, holds one record per case number, namely the last occurrence in
  the batch. \<^verbatim>\<open>diffCases\<close> on the batch is \<^verbatim>\<open>diffCases\<close> on the collapsed batch, and its
  changes name each case once, with the last occurrence as the record. After a successful
  upsert into a table with distinct case numbers, every case of the batch has exactly one
  row, and that row carries the fields, the status and the fingerprint of the last
  occurrence.
\<close>

theorem duplicates_collapse_last_wins:
  assumes "distinct (map case_no (case_state w))"
    and "upsertCaseState env records w = (Inr (), w')"
  shows "distinct (map caseNo (uniqueRecords records)) \<and>
         caseNo ` set (uniqueRecords records) = caseNo ` set records \<and>
         (\<forall>r. r \<in> set (uniqueRecords records) \<longleftrightarrow>
               find (\<lambda>x. caseNo x = caseNo r) (rev records) = Some r) \<and>
         diffCases env records = diffCases env (uniqueRecords records) \<and>
         (\<forall>wd changes wd'. diffCases env records wd = (Inr changes, wd') \<longrightarrow>
            distinct (map change_caseNo changes) \<and>
            (\<forall>c \<in> set changes.
               find (\<lambda>x. caseNo x = change_caseNo c) (rev records) = Some (change_record c))) \<and>
         (\<forall>r \<in> set records. length (filter (\<lambda>row. case_no row = caseNo r) (case_state w')) = 1) \<and>
         (\<forall>r \<in> set (uniqueRecords records).
            \<exists>row. rowOf (case_state w') (caseNo r) = Some row \<and>
              case_opened row = caseOpened r \<and> case_closed row = caseClosed r \<and>
              case_status row = determineCaseStatus (caseOpened r) (caseClosed r) \<and>
              case_type row = caseType r \<and> case_subtype row = caseSubType r \<and>
              site_address row = siteAddress r \<and> raw_data row = rawData r \<and>
              content_hash row = generateCaseHash (sha256hex env) r)"
proof -
  have rows: "\<exists>row. rowOf (case_state w') (caseNo r) = Some row \<and>
              case_opened row = caseOpened r \<and> case_closed row = caseClosed r \<and>
              case_status row = determineCaseStatus (caseOpened r) (caseClosed r) \<and>
              case_type row = caseType r \<and> case_subtype row = caseSubType r \<and>
              site_address row = siteAddress r \<and> raw_data row = rawData r \<and>
              content_hash row = generateCaseHash (sha256hex env) r"
    if r: "r \<in> set (uniqueRecords records)" for r
  proof -
    obtain k where "rowOf (case_state w') (caseNo r) =
             Some (upserted (sha256hex env) (dbNow env k) r (rowOf (case_state w) (caseNo r)))"
      using upsertCaseState_Inr_row [OF assms(2) r] by blast
    then show ?thesis by simp
  qed
  have d': "distinct (map case_no (case_state w'))"
    using upsertCaseState_distinct [OF assms(2,1)] .
  have one: "length (filter (\<lambda>row. case_no row = caseNo r) (case_state w')) = 1"
    if r: "r \<in> set records" for r
  proof -
    have "caseNo r \<in> caseNo ` set (uniqueRecords records)"
      using r by (simp add: uniqueRecords_keys)
    then obtain r' where r': "r' \<in> set (uniqueRecords records)" "caseNo r = caseNo r'"
      by auto
    obtain row where "rowOf (case_state w') (caseNo r') = Some row"
      using rows [OF r'(1)] by blast
    then have "case_no row = caseNo r'" "row \<in> set (case_state w')"
      using rowOf_Some_key [of "case_state w'" "caseNo r'" row] by simp_all
    then have "caseNo r \<in> case_no ` set (case_state w')"
      using r'(2) by (metis imageI)
    then show ?thesis
      by (rule one_row_per_key [OF d'])
  qed
  have diff: "distinct (map change_caseNo changes) \<and>
            (\<forall>c \<in> set changes.
               find (\<lambda>x. caseNo x = change_caseNo c) (rev records) = Some (change_record c))"
    if "diffCases env records wd = (Inr changes, wd')" for wd changes wd'
    using diffCases_changes [OF that] by simp
  have last: "\<forall>r. r \<in> set (uniqueRecords records) \<longleftrightarrow>
               find (\<lambda>x. caseNo x = caseNo r) (rev records) = Some r"
    by (simp add: uniqueRecords_last)
  have same: "diffCases env records = diffCases env (uniqueRecords records)"
    by (simp add: diffCases_uniqueRecords)
  from uniqueRecords_distinct [of records] uniqueRecords_keys [of records] last same
  show ?thesis
  proof (intro conjI)
    show "\<forall>wd changes wd'. diffCases env records wd = (Inr changes, wd') \<longrightarrow>
            distinct (map change_caseNo changes) \<and>
            (\<forall>c \<in> set changes.
               find (\<lambda>x. caseNo x = change_caseNo c) (rev records) = Some (change_record c))"
      using diff by (intro allI impI)
    show "\<forall>r \<in> set records. length (filter (\<lambda>row. case_no row = caseNo r) (case_state w')) = 1"
      using one by (intro ballI)
    show "\<forall>r \<in> set (uniqueRecords records).
            \<exists>row. rowOf (case_state w') (caseNo r) = Some row \<and>
              case_opened row = caseOpened r \<and> case_closed row = caseClosed r \<and>
              case_status row = determineCaseStatus (caseOpened r) (caseClosed r) \<and>
              case_type row = caseType r \<and> case_subtype row = caseSubType r \<and>
              site_address row = siteAddress r \<and> raw_data row = rawData r \<and>
              content_hash row = generateCaseHash (sha256hex env) r"
      using rows by (intro ballI)
  qed
qed

theorem duplicates_collapse_last_wins_witness:
  "\<forall>h. distinct (map case_no (case_state freshWorld)) \<and>
       fst (upsertCaseState (exampleEnv h) [exampleRecord, exampleClosedRecord] freshWorld) = Inr () \<and>
       length (filter (\<lambda>row. case_no row = ''CE24-0001'')
         (case_state (snd (upsertCaseState (exampleEnv h) [exampleRecord, exampleClosedRecord] freshWorld)))) = 1 \<and>
       (\<exists>row. rowOf (case_state (snd (upsertCaseState (exampleEnv h)
                  [exampleRecord, exampleClosedRecord] freshWorld))) ''CE24-0001'' = Some row \<and>
              case_closed row = Some ''2025-02-01'' \<and> case_status row = ''closed'')"
proof
  fix h
  let ?up = "upsertCaseState (exampleEnv h) [exampleRecord, exampleClosedRecord] freshWorld"
  have d: "distinct (map case_no (case_state freshWorld))"
    by (simp add: freshWorld_def)
  have ok1: "fst ?up = Inr ()"
    by (simp add: run_defs example_defs)
  then have up: "?up = (Inr (), snd ?up)"
    by (simp add: prod_eq_iff)
  have u: "uniqueRecords [exampleRecord, exampleClosedRecord] = [exampleClosedRecord]"
    by (simp add: uniqueRecords_def example_defs)
  note t = duplicates_collapse_last_wins [OF d up]
  have one: "length (filter (\<lambda>row. case_no row = caseNo exampleRecord) (case_state (snd ?up))) = 1"
    using t by simp
  have "\<exists>row. rowOf (case_state (snd ?up)) (caseNo exampleClosedRecord) = Some row \<and>
              case_closed row = caseClosed exampleClosedRecord \<and>
              case_status row = determineCaseStatus (caseOpened exampleClosedRecord) (caseClosed exampleClosedRecord)"
    using t unfolding u by auto
  then have row: "\<exists>row. rowOf (case_state (snd ?up)) ''CE24-0001'' = Some row \<and>
              case_closed row = Some ''2025-02-01'' \<and> case_status row = ''closed''"
    by (simp add: example_defs determineCaseStatus_def)
  show "distinct (map case_no (case_state freshWorld)) \<and> fst ?up = Inr () \<and>
       length (filter (\<lambda>row. case_no row = ''CE24-0001'') (case_state (snd ?up))) = 1 \<and>
       (\<exists>row. rowOf (case_state (snd ?up)) ''CE24-0001'' = Some row \<and>
              case_closed row = Some ''2025-02-01'' \<and> case_status row = ''closed'')"
    using d ok1 one row by (simp add: exampleRecord_def)
qed

subsection \<open>C5: the fingerprint\<close>

text \<open>
  Claim C5. Two records that agree on \<^verbatim>\<open>caseNo\<close>, \<^verbatim>\<open>caseOpened\<close> and \<^verbatim>\<open>caseClosed\<close> have
  the same fingerprint, whatever their other fields. The fingerprint is a function of the
  record and of the SHA-256 digest alone: no state of the process enters it.
\<close>

theorem fingerprint_ignores_other_fields: "caseNo r1 = caseNo r2 \<Longrightarrow> caseOpened r1 = caseOpened r2 \<Longrightarrow> caseClosed r1 = caseClosed r2 \<Longrightarrow>
  generateCaseHash h r1 = generateCaseHash h r2"
  by (simp add: generateCaseHash_def)

theorem fingerprint_ignores_other_fields_witness:
  "\<forall>h. generateCaseHash h exampleRecord =
        generateCaseHash h (exampleRecord\<lparr>caseType := ''OTHER'', caseSubType := ''X'',
           siteAddress := ''2 Oak Ave'', rawData := [(''CASE_NO'', ''CE24-0001'')]\<rparr>)"
  using fingerprint_ignores_other_fields [of exampleRecord "exampleRecord\<lparr>caseType := ''OTHER'', caseSubType := ''X'',
           siteAddress := ''2 Oak Ave'', rawData := [(''CASE_NO'', ''CE24-0001'')]\<rparr>"]
  by simp

subsection \<open>C6: the derived status\<close>

text \<open>
  Claim C6. The status is \<^verbatim>\<open>closed\<close> exactly when both dates are present and \<^verbatim>\<open>open\<close>
  in every other combination: both absent, only the opened date, only the closed date.
  Present means truthy, so the empty string counts as absent; for the dates
  \<^verbatim>\<open>normalizeDate\<close> produces, present means not null.
\<close>

theorem status_closed_iff_both_dates:
  "(determineCaseStatus opened closed = ''closed'' \<longleftrightarrow> truthy opened \<and> truthy closed) \<and>
   (determineCaseStatus opened closed = ''open'' \<longleftrightarrow> \<not> (truthy opened \<and> truthy closed)) \<and>
   determineCaseStatus None None = ''open'' \<and>
   determineCaseStatus None closed = ''open'' \<and>
   determineCaseStatus opened None = ''open'' \<and>
   (determineCaseStatus (normalizeDate a) (normalizeDate b) = ''closed'' \<longleftrightarrow>
      normalizeDate a \<noteq> None \<and> normalizeDate b \<noteq> None)"
proof -
  have "truthy (normalizeDate x) \<longleftrightarrow> normalizeDate x \<noteq> None" for x
    using normalizeDate_nonempty [of x] by (cases "normalizeDate x") auto
  then show ?thesis
    by (simp add: determineCaseStatus_def)
qed

subsection \<open>C7: when the search is disabled\<close>

text \<open>
  Claim C7 at a failing input. The remote store answers the search with status 500 (not
  405) and a body whose text contains \<^verbatim>\<open>405\<close>. \<^verbatim>\<open>searchTicketsByCustomField\<close> throws;
  \<^verbatim>\<open>findTicketByCaseNumber\<close> does not propagate the error: it returns \<^verbatim>\<open>null\<close> and clears
  \<^verbatim>\<open>searchApiAvailable\<close>, because it tests whether the message contains \<^verbatim>\<open>405\<close>. The other
  parts of the claim hold: see \<open>status_405_disables_search\<close>,
  \<open>findTicketByCaseNumber_disabled\<close> and \<open>search_flag_stays_cleared\<close>.
\<close>

theorem search_error_with_405_in_body_swallowed:
  "searchTicketsByCustomField (overloadedEnv h) (noFields\<lparr>cc_case_number := Some ''CE24-0001''\<rparr>)
       1 0 True freshWorld =
     (Inl (Error ''Failed to search tickets: 500 upstream timed out (trace 914052)''),
      freshWorld\<lparr>requests := [SearchTickets (noFields\<lparr>cc_case_number := Some ''CE24-0001''\<rparr>) 1 0 True]\<rparr>) \<and>
   findTicketByCaseNumber (overloadedEnv h) ''CE24-0001'' freshWorld =
     (Inr None,
      freshWorld\<lparr>requests := [SearchTickets (noFields\<lparr>cc_case_number := Some ''CE24-0001''\<rparr>) 1 0 True],
                 searchApiAvailable := False\<rparr>)"
  by (simp add: findTicketByCaseNumber_def searchTicketsByCustomField_def fetch_def ok_def
      overloadedEnv_def overloadedServer_def exampleEnv_def freshWorld_def
      stringOfNat.simps digitChar_def)

subsection \<open>C8: the run record and the persisted batch\<close>




subsection \<open>C9: the cached ticket link\<close>

text \<open>
  Claim C9 at two failing inputs. A case seen for the first time is matched to ticket 42
  by the search, once with nothing to update and once with an update that is sent. Both
  runs complete without an error, and in both the row the run leaves for the case has
  \<^verbatim>\<open>threefold_ticket_id\<close> null: \<^verbatim>\<open>updateCaseThreefoldId\<close> runs before the row exists, and
  the insert at the end of the run does not set the column. For a case that has a row the
  link is stored: see \<open>seen_case_link_cached\<close>.
\<close>

theorem new_case_link_not_cached:
  "fst (processCasesSync (exampleEnv h) [exampleRecord] freshWorld) = Inr () \<and>
   requests (snd (processCasesSync (exampleEnv h) [exampleRecord] freshWorld)) =
     [SearchTickets (noFields\<lparr>cc_case_number := Some ''CE24-0001''\<rparr>) 1 0 True] \<and>
   remoteServer (exampleEnv h) []
     (SearchTickets (noFields\<lparr>cc_case_number := Some ''CE24-0001''\<rparr>) 1 0 True) =
     HttpResponse 200 [] [exampleTicket] \<and>
   ticket_id exampleTicket = 42 \<and>
   map log_errors (sync_log (snd (processCasesSync (exampleEnv h) [exampleRecord] freshWorld))) = [0] \<and>
   map case_no (case_state (snd (processCasesSync (exampleEnv h) [exampleRecord] freshWorld))) =
     [''CE24-0001''] \<and>
   map threefold_ticket_id
     (case_state (snd (processCasesSync (exampleEnv h) [exampleRecord] freshWorld))) = [None] \<and>
   fst (processCasesSync (exampleEnv h) [exampleClosedRecord] freshWorld) = Inr () \<and>
   requests (snd (processCasesSync (exampleEnv h) [exampleClosedRecord] freshWorld)) =
     [SearchTickets (noFields\<lparr>cc_case_number := Some ''CE24-0001''\<rparr>) 1 0 True,
      PostCustomFields 42 (noFields\<lparr>case_close_date := Some (Some ''2025-02-01''),
                                      last_case_status := Some ''closed''\<rparr>)] \<and>
   map changed_records
     (sync_log (snd (processCasesSync (exampleEnv h) [exampleClosedRecord] freshWorld))) = [1] \<and>
   map threefold_ticket_id
     (case_state (snd (processCasesSync (exampleEnv h) [exampleClosedRecord] freshWorld))) = [None]"
  by (simp add: run_defs example_defs)

subsection \<open>C10: what the bulk upsert leaves alone\<close>

text \<open>
  Claim C10. Whatever the outcome of \<^verbatim>\<open>upsertCaseState\<close>, a row that was in the table is
  still the row of its case and differs from the old one in the nine columns
  \<^verbatim>\<open>case_opened\<close>, \<^verbatim>\<open>case_closed\<close>, \<^verbatim>\<open>case_status\<close>, \<^verbatim>\<open>case_type\<close>, \<^verbatim>\<open>case_subtype\<close>,
  \<^verbatim>\<open>site_address\<close>, \<^verbatim>\<open>raw_data\<close>, \<^verbatim>\<open>content_hash\<close> and \<^verbatim>\<open>last_seen_at\<close> at most:
  \<^verbatim>\<open>threefold_ticket_id\<close> and \<^verbatim>\<open>created_at\<close> are unchanged. A row of a case that had none
  has \<^verbatim>\<open>threefold_ticket_id\<close> null. When the upsert succeeds, the row of a case of the batch
  that was there is the old row with those nine columns set from the record.
\<close>

theorem upsert_keeps_link_and_created_at:
  assumes "upsertCaseState env records w = (res, w')"
  shows "(\<forall>k old. rowOf (case_state w) k = Some old \<longrightarrow>
            (\<exists>new. rowOf (case_state w') k = Some new \<and>
               new = old\<lparr>case_opened := case_opened new, case_closed := case_closed new,
                          case_status := case_status new, case_type := case_type new,
                          case_subtype := case_subtype new, site_address := site_address new,
                          raw_data := raw_data new, content_hash := content_hash new,
                          last_seen_at := last_seen_at new\<rparr> \<and>
               threefold_ticket_id new = threefold_ticket_id old \<and>
               created_at new = created_at old)) \<and>
         (\<forall>k new. rowOf (case_state w) k = None \<longrightarrow> rowOf (case_state w') k = Some new \<longrightarrow>
            threefold_ticket_id new = None) \<and>
         (\<forall>r \<in> set (uniqueRecords records). \<forall>old.
            res = Inr () \<longrightarrow> rowOf (case_state w) (caseNo r) = Some old \<longrightarrow>
            (\<exists>k. rowOf (case_state w') (caseNo r) =
               Some (old\<lparr>case_opened := caseOpened r, case_closed := caseClosed r,
                        case_status := determineCaseStatus (caseOpened r) (caseClosed r),
                        case_type := caseType r, case_subtype := caseSubType r,
                        site_address := siteAddress r, raw_data := rawData r,
                        content_hash := generateCaseHash (sha256hex env) r,
                        last_seen_at := dbNow env k\<rparr>)))"
proof -
  note f = upsertCaseState_upsertFrame [OF assms]
  have a: "\<exists>new. rowOf (case_state w') k = Some new \<and>
               new = old\<lparr>case_opened := case_opened new, case_closed := case_closed new,
                          case_status := case_status new, case_type := case_type new,
                          case_subtype := case_subtype new, site_address := site_address new,
                          raw_data := raw_data new, content_hash := content_hash new,
                          last_seen_at := last_seen_at new\<rparr> \<and>
               threefold_ticket_id new = threefold_ticket_id old \<and>
               created_at new = created_at old"
    if old: "rowOf (case_state w) k = Some old" for k old
  proof -
    obtain new where new: "rowOf (case_state w') k = Some new" "sameOutsideUpsertColumns old new"
      using upsertFrame_SomeD [OF f old] by blast
    show ?thesis
      using new(1) new(2) [unfolded sameOutsideUpsertColumns_def] new(2) [unfolded sameOutside_iff]
      by blast
  qed
  have b: "threefold_ticket_id new = None"
    if "rowOf (case_state w) k = None" "rowOf (case_state w') k = Some new" for k new
    using upsertFrame_NoneD [OF f that] .
  have c: "\<exists>k. rowOf (case_state w') (caseNo r) =
               Some (old\<lparr>case_opened := caseOpened r, case_closed := caseClosed r,
                        case_status := determineCaseStatus (caseOpened r) (caseClosed r),
                        case_type := caseType r, case_subtype := caseSubType r,
                        site_address := siteAddress r, raw_data := rawData r,
                        content_hash := generateCaseHash (sha256hex env) r,
                        last_seen_at := dbNow env k\<rparr>)"
    if r: "r \<in> set (uniqueRecords records)" and res: "res = Inr ()"
      and old: "rowOf (case_state w) (caseNo r) = Some old"
    for r old
  proof -
    obtain k where "rowOf (case_state w') (caseNo r) =
             Some (upserted (sha256hex env) (dbNow env k) r (rowOf (case_state w) (caseNo r)))"
      using upsertCaseState_Inr_row [OF assms [unfolded res] r] by blast
    then show ?thesis
      using old by (auto simp: upserted_def doUpdateSet_def excludedRow_def)
  qed
  show ?thesis
    using a b c by blast
qed

theorem upsert_keeps_link_and_created_at_witness:
  "\<forall>h. (\<exists>new. rowOf (case_state (snd (upsertCaseState (exampleEnv h)
                   [exampleClosedRecord, exampleOtherRecord] (linkedWorld h)))) ''CE24-0001'' = Some new \<and>
              threefold_ticket_id new = Some 42 \<and> created_at new = 900) \<and>
       rowOf (case_state (linkedWorld h)) ''CC25-0774'' = None \<and>
       (\<exists>new. rowOf (case_state (snd (upsertCaseState (exampleEnv h)
                   [exampleClosedRecord, exampleOtherRecord] (linkedWorld h)))) ''CC25-0774'' = Some new \<and>
              threefold_ticket_id new = None) \<and>
       fst (upsertCaseState (exampleEnv h) [exampleClosedRecord, exampleOtherRecord] (linkedWorld h)) = Inr () \<and>
       (\<exists>k. rowOf (case_state (snd (upsertCaseState (exampleEnv h)
                   [exampleClosedRecord, exampleOtherRecord] (linkedWorld h)))) ''CE24-0001'' =
             Some ((exampleRow h)\<lparr>case_opened := Some ''2025-01-01'', case_closed := Some ''2025-02-01'',
                      case_status := ''closed'', case_type := ''CODE ENFORCEMENT'',
                      case_subtype := ''MULTIPLE VIOLATIONS'', site_address := ''1 Main St, Corona, CA'',
                      raw_data := [], content_hash := generateCaseHash h exampleClosedRecord,
                      last_seen_at := 1000 + k\<rparr>))"
proof
  fix h
  let ?env = "exampleEnv h" and ?rs = "[exampleClosedRecord, exampleOtherRecord]"
  let ?up = "upsertCaseState ?env ?rs (linkedWorld h)"
  have up: "?up = (fst ?up, snd ?up)"
    by simp
  have ok1: "fst ?up = Inr ()"
    by (simp add: run_defs example_defs)
  have old: "rowOf (case_state (linkedWorld h)) ''CE24-0001'' = Some (exampleRow h)"
    and none: "rowOf (case_state (linkedWorld h)) ''CC25-0774'' = None"
    by (simp_all add: rowOf_def example_defs)
  have new2: "rowOf (case_state (snd ?up)) ''CC25-0774'' \<noteq> None"
    by (simp add: run_defs example_defs rowOf_def)
  have u: "exampleClosedRecord \<in> set (uniqueRecords ?rs)"
    by (simp add: uniqueRecords_def example_defs)
  note t = upsert_keeps_link_and_created_at [OF up]
  have a: "\<exists>new. rowOf (case_state (snd ?up)) ''CE24-0001'' = Some new \<and>
              threefold_ticket_id new = Some 42 \<and> created_at new = 900"
  proof -
    obtain new where "rowOf (case_state (snd ?up)) ''CE24-0001'' = Some new"
      "threefold_ticket_id new = threefold_ticket_id (exampleRow h)"
      "created_at new = created_at (exampleRow h)"
      using t old by blast
    then show ?thesis by (simp add: exampleRow_def)
  qed
  have b: "\<exists>new. rowOf (case_state (snd ?up)) ''CC25-0774'' = Some new \<and> threefold_ticket_id new = None"
  proof -
    obtain new where n: "rowOf (case_state (snd ?up)) ''CC25-0774'' = Some new"
      using new2 by auto
    then have "threefold_ticket_id new = None"
      using t none by blast
    then show ?thesis using n by simp
  qed
  have old': "rowOf (case_state (linkedWorld h)) (caseNo exampleClosedRecord) = Some (exampleRow h)"
    using old by (simp add: example_defs)
  have "\<exists>k. rowOf (case_state (snd ?up)) (caseNo exampleClosedRecord) =
               Some ((exampleRow h)\<lparr>case_opened := caseOpened exampleClosedRecord,
                        case_closed := caseClosed exampleClosedRecord,
                        case_status := determineCaseStatus (caseOpened exampleClosedRecord) (caseClosed exampleClosedRecord),
                        case_type := caseType exampleClosedRecord, case_subtype := caseSubType exampleClosedRecord,
                        site_address := siteAddress exampleClosedRecord, raw_data := rawData exampleClosedRecord,
                        content_hash := generateCaseHash (sha256hex ?env) exampleClosedRecord,
                        last_seen_at := dbNow ?env k\<rparr>)"
    using t u ok1 old' by blast
  then have c: "\<exists>k. rowOf (case_state (snd ?up)) ''CE24-0001'' =
             Some ((exampleRow h)\<lparr>case_opened := Some ''2025-01-01'', case_closed := Some ''2025-02-01'',
                      case_status := ''closed'', case_type := ''CODE ENFORCEMENT'',
                      case_subtype := ''MULTIPLE VIOLATIONS'', site_address := ''1 Main St, Corona, CA'',
                      raw_data := [], content_hash := generateCaseHash h exampleClosedRecord,
                      last_seen_at := 1000 + k\<rparr>)"
    by (simp add: exampleClosedRecord_def exampleRecord_def exampleEnv_def determineCaseStatus_def)
  show "(\<exists>new. rowOf (case_state (snd ?up)) ''CE24-0001'' = Some new \<and>
              threefold_ticket_id new = Some 42 \<and> created_at new = 900) \<and>
       rowOf (case_state (linkedWorld h)) ''CC25-0774'' = None \<and>
       (\<exists>new. rowOf (case_state (snd ?up)) ''CC25-0774'' = Some new \<and> threefold_ticket_id new = None) \<and>
       fst ?up = Inr () \<and>
       (\<exists>k. rowOf (case_state (snd ?up)) ''CE24-0001'' =
             Some ((exampleRow h)\<lparr>case_opened := Some ''2025-01-01'', case_closed := Some ''2025-02-01'',
                      case_status := ''closed'', case_type := ''CODE ENFORCEMENT'',
                      case_subtype := ''MULTIPLE VIOLATIONS'', site_address := ''1 Main St, Corona, CA'',
                      raw_data := [], content_hash := generateCaseHash h exampleClosedRecord,
                      last_seen_at := 1000 + k\<rparr>))"
    using a none b ok1 c by blast
qed

end
